theory Spec2Isabelle
  imports Complex_Main "HOL-Library.AList" "HOL-Library.Multiset"
begin

section \<open>Strings\<close>

text \<open>
  Item names are Python \<open>str\<close> values, modelled as \<^typ>\<open>string\<close>. The character
  classes are those of CPython on the ASCII range, which the operations used here
  (\<^verbatim>\<open>re.sub\<close>, \<^verbatim>\<open>str.upper\<close>, \<^verbatim>\<open>str.strip\<close>, \<^verbatim>\<open>str.split\<close>) never leave.
  A \<^typ>\<open>char\<close> above 127 is outside the modelled range: it is in no class below and
  \<open>upper\<close> leaves it alone.
\<close>

definition ascii_lowercase :: string where
  "ascii_lowercase = ''abcdefghijklmnopqrstuvwxyz''"

definition ascii_uppercase :: string where
  "ascii_uppercase = ''ABCDEFGHIJKLMNOPQRSTUVWXYZ''"

definition digits :: string where
  "digits = ''0123456789''"

text \<open>\<^verbatim>\<open>str.isalnum\<close> on one character.\<close>

definition is_alnum :: "char \<Rightarrow> bool" where
  "is_alnum c \<longleftrightarrow> c \<in> set (ascii_lowercase @ ascii_uppercase @ digits)"

text \<open>The class \<^verbatim>\<open>\w\<close> of \<^verbatim>\<open>re\<close>: alphanumeric characters and the underscore.\<close>

definition is_word :: "char \<Rightarrow> bool" where
  "is_word c \<longleftrightarrow> is_alnum c \<or> c = CHR ''_''"

text \<open>
  The class \<^verbatim>\<open>\s\<close> of \<^verbatim>\<open>re\<close> on \<open>str\<close>, which is also what \<^verbatim>\<open>str.strip()\<close> and
  \<^verbatim>\<open>str.split()\<close> take as whitespace: tab, line feed, vertical tab, form feed,
  carriage return, the four separators \<open>0x1C\<close> to \<open>0x1F\<close>, and the space.
\<close>

definition whitespace :: string where
  "whitespace = [CHR 0x09, CHR 0x0A, CHR 0x0B, CHR 0x0C, CHR 0x0D,
                 CHR 0x1C, CHR 0x1D, CHR 0x1E, CHR 0x1F, CHR 0x20]"

definition is_space :: "char \<Rightarrow> bool" where
  "is_space c \<longleftrightarrow> c \<in> set whitespace"

text \<open>A character matched by the pattern \<^verbatim>\<open>[^\w\s-]\<close>.\<close>

definition is_special :: "char \<Rightarrow> bool" where
  "is_special c \<longleftrightarrow> \<not> (is_word c \<or> is_space c \<or> c = CHR ''-'')"

text \<open>\<^verbatim>\<open>re.sub(r'[^\w\s-]', '', s)\<close>: every match is one character, replaced by nothing.\<close>

definition remove_special :: "string \<Rightarrow> string" where
  "remove_special s = filter (\<lambda>c. \<not> is_special c) s"

text \<open>\<^verbatim>\<open>re.search(r'[^\w\s-]', s)\<close> taken as a truth value.\<close>

definition has_special :: "string \<Rightarrow> bool" where
  "has_special s = list_ex is_special s"

text \<open>\<^verbatim>\<open>str.upper()\<close>.\<close>

definition upper_char :: "char \<Rightarrow> char" where
  "upper_char c = (case map_of (zip ascii_lowercase ascii_uppercase) c of
                     Some u \<Rightarrow> u | None \<Rightarrow> c)"

definition upper :: "string \<Rightarrow> string" where
  "upper s = map upper_char s"

text \<open>\<^verbatim>\<open>str.strip()\<close> with no argument.\<close>

definition strip :: "string \<Rightarrow> string" where
  "strip s = rev (dropWhile is_space (rev (dropWhile is_space s)))"

text \<open>
  \<^verbatim>\<open>str.split()\<close> with no argument: the maximal runs of non-whitespace characters, in
  order. \<open>split_from w s\<close> scans \<open>s\<close> with the word \<open>w\<close> collected so far.
\<close>

fun split_from :: "string \<Rightarrow> string \<Rightarrow> string list" where
  "split_from w [] = (if w = [] then [] else [w])"
| "split_from w (c # cs) =
     (if is_space c then (if w = [] then split_from [] cs else w # split_from [] cs)
      else split_from (w @ [c]) cs)"

definition split :: "string \<Rightarrow> string list" where
  "split s = split_from [] s"

text \<open>\<^verbatim>\<open>sep.join(words)\<close>.\<close>

fun join :: "string \<Rightarrow> string list \<Rightarrow> string" where
  "join sep [] = []"
| "join sep [w] = w"
| "join sep (w # v # ws) = w @ sep @ join sep (v # ws)"

text \<open>\<^verbatim>\<open>sub in s\<close> on strings: \<open>sub\<close> occurs in \<open>s\<close> as a contiguous block.\<close>

definition startswith :: "string \<Rightarrow> string \<Rightarrow> bool" where
  "startswith s sub \<longleftrightarrow> take (length sub) s = sub"

fun contains :: "string \<Rightarrow> string \<Rightarrow> bool" where
  "contains [] sub = (sub = [])"
| "contains (c # cs) sub = (startswith (c # cs) sub \<or> contains cs sub)"

section \<open>Name normalisation and search terms\<close>

text \<open>
  \<^verbatim>\<open>CelebrationPackChecker.normalize_name\<close>:
  \<^verbatim>\<open>normalized = re.sub(r'[^\w\s-]', '', name); return normalized.upper().strip()\<close>.
\<close>

definition normalize_name :: "string \<Rightarrow> string" where
  "normalize_name name = (let normalized = remove_special name in strip (upper normalized))"

text \<open>
  \<^verbatim>\<open>CelebrationPackChecker.get_search_terms\<close>. \<open>words[-1]\<close> is read only when
  \<open>words\<close> is not empty, and \<open>words[-2:]\<close> only when it has two elements or more.
\<close>

definition get_search_terms :: "string \<Rightarrow> string list" where
  "get_search_terms item_name =
     (let terms = [item_name];
          no_special = remove_special item_name;
          terms = (if no_special \<noteq> item_name then terms @ [no_special] else terms)
      in if has_special item_name then
           (let cleaned = remove_special item_name;
                words = split cleaned
            in if length words > 0 then
                 (let terms = terms @ [last words]
                  in if length words \<ge> 2
                     then terms @ [join '' '' (drop (length words - 2) words)]
                     else terms)
               else terms)
         else terms)"

section \<open>Ownership of one item\<close>

text \<open>
  One entry of the list \<^verbatim>\<open>R6MarketplaceAPI.search_item\<close> returns. The entry has the keys
  \<open>id\<close>, \<open>type\<close> and \<open>tags\<close> too; \<^verbatim>\<open>check_ownership\<close> reads \<open>name\<close> and
  \<open>is_owned\<close> only.
\<close>

record candidate =
  name :: string
  is_owned :: bool

text \<open>
  The first loop over the results of one term: \<open>Some b\<close> is \<^verbatim>\<open>return item['is_owned']\<close>
  at the first entry whose normalised name is the normalised item name, \<open>None\<close> is the
  loop running to its end.
\<close>

fun exact_pass :: "string \<Rightarrow> candidate list \<Rightarrow> bool option" where
  "exact_pass normalized_search [] = None"
| "exact_pass normalized_search (item # results) =
     (let normalized_result = normalize_name (name item)
      in if normalized_result = normalized_search then Some (is_owned item)
         else exact_pass normalized_search results)"

text \<open>The test of the second loop on one entry.\<close>

definition partial_match :: "string \<Rightarrow> candidate \<Rightarrow> bool" where
  "partial_match normalized_search item =
     (let normalized_result = normalize_name (name item)
      in if contains normalized_result normalized_search \<and> is_owned item then
           (let words_search = set (split normalized_search);
                words_result = set (split normalized_result)
            in words_search \<subseteq> words_result)
         else False)"

text \<open>The second loop: \<open>True\<close> is \<^verbatim>\<open>return True\<close>, \<open>False\<close> is the loop running to its end.\<close>

fun partial_pass :: "string \<Rightarrow> candidate list \<Rightarrow> bool" where
  "partial_pass normalized_search [] = False"
| "partial_pass normalized_search (item # results) =
     (if partial_match normalized_search item then True
      else partial_pass normalized_search results)"

text \<open>
  The body of the loop over the search terms, on the results of one term: \<open>Some b\<close> is a
  \<^verbatim>\<open>return b\<close>, \<open>None\<close> is going on to the next term.
\<close>

definition check_results :: "string \<Rightarrow> candidate list \<Rightarrow> bool option" where
  "check_results item_name results =
     (if results = [] then None
      else let normalized_search = normalize_name item_name
           in case exact_pass normalized_search results of
                Some b \<Rightarrow> Some b
              | None \<Rightarrow> if partial_pass normalized_search results then Some True else None)"

text \<open>
  The loop over the search terms. \<open>search_item\<close> is the answer of
  \<^verbatim>\<open>marketplace_api.search_item(search_term, limit=30)\<close> to each query; that method returns
  the empty list when the request or the parsing of its answer fails.
\<close>

fun check_terms :: "(string \<Rightarrow> candidate list) \<Rightarrow> string \<Rightarrow> string list \<Rightarrow> bool" where
  "check_terms search_item item_name [] = False"
| "check_terms search_item item_name (search_term # search_terms) =
     (case check_results item_name (search_item search_term) of
        Some b \<Rightarrow> b
      | None \<Rightarrow> check_terms search_item item_name search_terms)"

text \<open>\<^verbatim>\<open>CelebrationPackChecker.check_ownership\<close>.\<close>

definition check_ownership :: "(string \<Rightarrow> candidate list) \<Rightarrow> string \<Rightarrow> bool" where
  "check_ownership search_item item_name =
     (let search_terms = get_search_terms item_name
      in check_terms search_item item_name search_terms)"

section \<open>Dictionaries\<close>

text \<open>
  A Python \<open>dict\<close> with string keys: the entries in insertion order, no key twice.
\<close>

type_synonym 'v dict = "(string \<times> 'v) list"

text \<open>\<^verbatim>\<open>d[k] = v\<close>: a key that is present keeps its place, a new key goes last.\<close>

definition setitem :: "string \<Rightarrow> 'v \<Rightarrow> 'v dict \<Rightarrow> 'v dict" where
  "setitem k v d = AList.update k v d"

text \<open>\<^verbatim>\<open>d[k].append(x)\<close>; \<open>None\<close> is the \<open>KeyError\<close> of a key that is absent.\<close>

definition append_item :: "string \<Rightarrow> 'a \<Rightarrow> 'a list dict \<Rightarrow> 'a list dict option" where
  "append_item k x d =
     (case map_of d k of None \<Rightarrow> None | Some l \<Rightarrow> Some (AList.update k (l @ [x]) d))"

text \<open>\<^verbatim>\<open>sum(len(items) for items in d.values())\<close>.\<close>

definition total_len :: "'a list dict \<Rightarrow> nat" where
  "total_len d = sum_list (map (\<lambda>items. length items) (map snd d))"

section \<open>The run over the catalog\<close>

text \<open>
  What a call or a statement of \<^verbatim>\<open>find_missing_items\<close> does, seen from the method: it
  returns, or an \<open>Exception\<close> leaves it, or a \<open>KeyboardInterrupt\<close> does. The signal can
  be delivered at any statement, so each stretch of the loop has such an outcome.
\<close>

datatype 'a outcome = Returned 'a | Raised | Interrupted

text \<open>
  The exceptions that can leave a method; \<open>OtherException\<close> is an \<open>Exception\<close> of any
  other class.
\<close>

datatype error = KeyError | ZeroDivisionError | KeyboardInterrupt | OtherException

record checker =
  celebration_items :: "string list dict"
  owned_items :: "string list dict"
  missing_items :: "string list dict"

text \<open>\<^verbatim>\<open>CelebrationPackChecker.__init__\<close>.\<close>

definition init_checker :: checker where
  "init_checker = \<lparr>celebration_items = [], owned_items = [], missing_items = []\<rparr>"

text \<open>After one item: the loop goes on, or the function has executed \<^verbatim>\<open>return\<close>.\<close>

datatype step = Next checker | Stop checker

text \<open>
  Statements that stand in no \<^verbatim>\<open>try\<close> block, followed by the rest of the method: an
  exception raised in them leaves \<^verbatim>\<open>find_missing_items\<close>.
\<close>

definition outside_try :: "unit outcome \<Rightarrow> error + 'a \<Rightarrow> error + 'a" where
  "outside_try statements rest =
     (case statements of
        Returned u \<Rightarrow> rest
      | Raised \<Rightarrow> Inl OtherException
      | Interrupted \<Rightarrow> Inl KeyboardInterrupt)"

text \<open>
  The statement \<^verbatim>\<open>self.missing_items[category].append(item)\<close> of the handler
  \<^verbatim>\<open>except Exception\<close>. An error raised here is in no \<^verbatim>\<open>try\<close> block.
\<close>

definition record_missing :: "string \<Rightarrow> string \<Rightarrow> checker \<Rightarrow> error + step" where
  "record_missing category item s =
     (case append_item category item (missing_items s) of
        None \<Rightarrow> Inl KeyError
      | Some m \<Rightarrow> Inr (Next (s\<lparr>missing_items := m\<rparr>)))"

text \<open>
  The \<^verbatim>\<open>try\<close> statement for one item, with its two handlers.
  \<open>resolver n item\<close> is the outcome of the \<open>n\<close>-th call of \<^verbatim>\<open>check_ownership\<close>, and
  \<open>sleep n\<close> holds when a \<open>KeyboardInterrupt\<close> is raised in the \<^verbatim>\<open>time.sleep(0.3)\<close>
  that follows it; both are inside the \<^verbatim>\<open>try\<close> block.
  \<open>handler n\<close> is the outcome of the body of the handler entered for the \<open>n\<close>-th item
  (\<^verbatim>\<open>except KeyboardInterrupt\<close> or \<^verbatim>\<open>except Exception\<close>), which opens with a
  \<^verbatim>\<open>print\<close>, the \<open>KeyError\<close> of its \<^verbatim>\<open>append\<close> apart; the body is outside the
  \<^verbatim>\<open>try\<close> block, so an exception raised there leaves the method, and the \<^verbatim>\<open>return\<close>
  or the \<^verbatim>\<open>append\<close> of the handler has no effect that the caller receives.
  A \<open>KeyError\<close> of an \<^verbatim>\<open>append\<close> inside the \<^verbatim>\<open>try\<close> block is an \<open>Exception\<close> and
  reaches the handler. The two lines printed inside the \<^verbatim>\<open>try\<close> block after the
  \<^verbatim>\<open>append\<close> are not modelled.
\<close>

definition check_item ::
  "(nat \<Rightarrow> string \<Rightarrow> bool outcome) \<Rightarrow> (nat \<Rightarrow> bool) \<Rightarrow> (nat \<Rightarrow> unit outcome)
     \<Rightarrow> string \<Rightarrow> string \<Rightarrow> nat \<Rightarrow> checker \<Rightarrow> error + step" where
  "check_item resolver sleep handler category item checked s =
     (case resolver checked item of
        Interrupted \<Rightarrow> outside_try (handler checked) (Inr (Stop s))
      | Raised \<Rightarrow> outside_try (handler checked) (record_missing category item s)
      | Returned owned \<Rightarrow>
          (let appended =
                 (if owned
                  then map_option (\<lambda>d. s\<lparr>owned_items := d\<rparr>)
                         (append_item category item (owned_items s))
                  else map_option (\<lambda>d. s\<lparr>missing_items := d\<rparr>)
                         (append_item category item (missing_items s)))
           in case appended of
                None \<Rightarrow> outside_try (handler checked) (record_missing category item s)
              | Some s' \<Rightarrow>
                  if sleep checked then outside_try (handler checked) (Inr (Stop s'))
                  else Inr (Next s')))"

text \<open>
  The loop \<^verbatim>\<open>for item in items\<close>, with the counter \<open>checked\<close>. \<open>progress n\<close> is the
  outcome of the statements executed after the \<^verbatim>\<open>try\<close> statement of the item before
  (from the start of the method, for the first item) up to the \<^verbatim>\<open>try\<close> statement of
  the \<open>n\<close>-th item, or up to the end of the method when no item is left: the loop
  headers, \<^verbatim>\<open>checked += 1\<close> and the \<^verbatim>\<open>print\<close> of the progress line. They are
  outside the \<^verbatim>\<open>try\<close> block.
\<close>

fun check_items ::
  "(nat \<Rightarrow> string \<Rightarrow> bool outcome) \<Rightarrow> (nat \<Rightarrow> bool) \<Rightarrow> (nat \<Rightarrow> unit outcome)
     \<Rightarrow> (nat \<Rightarrow> unit outcome) \<Rightarrow> string \<Rightarrow> string list \<Rightarrow> nat \<Rightarrow> checker
     \<Rightarrow> error + (nat \<times> step)" where
  "check_items resolver sleep progress handler category [] checked s = Inr (checked, Next s)"
| "check_items resolver sleep progress handler category (item # items) checked s =
     (let checked = checked + 1
      in outside_try (progress checked)
           (case check_item resolver sleep handler category item checked s of
              Inl e \<Rightarrow> Inl e
            | Inr (Stop s') \<Rightarrow> Inr (checked, Stop s')
            | Inr (Next s') \<Rightarrow>
                check_items resolver sleep progress handler category items checked s'))"

text \<open>
  The loop \<^verbatim>\<open>for category, items in celebration_items.items()\<close>. After the last
  category the loop header is executed once more, and the method returns.
\<close>

fun check_categories ::
  "(nat \<Rightarrow> string \<Rightarrow> bool outcome) \<Rightarrow> (nat \<Rightarrow> bool) \<Rightarrow> (nat \<Rightarrow> unit outcome)
     \<Rightarrow> (nat \<Rightarrow> unit outcome) \<Rightarrow> string list dict \<Rightarrow> nat \<Rightarrow> checker
     \<Rightarrow> error + checker" where
  "check_categories resolver sleep progress handler [] checked s =
     outside_try (progress (checked + 1)) (Inr s)"
| "check_categories resolver sleep progress handler ((category, items) # rest) checked s =
     (let s = s\<lparr>owned_items := setitem category [] (owned_items s)\<rparr>;
          s = s\<lparr>missing_items := setitem category [] (missing_items s)\<rparr>
      in case check_items resolver sleep progress handler category items checked s of
           Inl e \<Rightarrow> Inl e
         | Inr (checked', Stop s') \<Rightarrow> Inr s'
         | Inr (checked', Next s') \<Rightarrow>
             check_categories resolver sleep progress handler rest checked' s')"

text \<open>
  \<^verbatim>\<open>CelebrationPackChecker.find_missing_items\<close>. It returns \<open>None\<close> in Python; the result
  here is the checker it leaves behind, or the exception that leaves the method.
\<close>

definition find_missing_items ::
  "(nat \<Rightarrow> string \<Rightarrow> bool outcome) \<Rightarrow> (nat \<Rightarrow> bool) \<Rightarrow> (nat \<Rightarrow> unit outcome)
     \<Rightarrow> (nat \<Rightarrow> unit outcome) \<Rightarrow> string list dict \<Rightarrow> checker \<Rightarrow> error + checker" where
  "find_missing_items resolver sleep progress handler celebration s =
     check_categories resolver sleep progress handler celebration 0
       (s\<lparr>celebration_items := celebration\<rparr>)"

section \<open>Grouping by base name\<close>

text \<open>
  \<^verbatim>\<open>s.rfind(sub)\<close>: the start of the rightmost occurrence of \<open>sub\<close> in \<open>s\<close>, where
  \<^verbatim>\<open>rsplit\<close> cuts.
\<close>

fun rfind :: "string \<Rightarrow> string \<Rightarrow> nat option" where
  "rfind [] sub = (if sub = [] then Some 0 else None)"
| "rfind (c # cs) sub =
     (case rfind cs sub of
        Some i \<Rightarrow> Some (Suc i)
      | None \<Rightarrow> if startswith (c # cs) sub then Some 0 else None)"

text \<open>\<^verbatim>\<open>s.rsplit(sep, 1)\<close> for a separator that is not empty.\<close>

definition rsplit1 :: "string \<Rightarrow> string \<Rightarrow> string list" where
  "rsplit1 s sep =
     (case rfind s sep of
        None \<Rightarrow> [s]
      | Some i \<Rightarrow> [take i s, drop (i + length sep) s])"

text \<open>The base name the loop of \<^verbatim>\<open>group_items_by_base_name\<close> computes for one item.\<close>

definition base_name :: "string \<Rightarrow> string" where
  "base_name item =
     (if contains item '' - '' then (let parts = rsplit1 item '' - '' in hd parts) else item)"

text \<open>
  \<^verbatim>\<open>grouped[base_name].append(item)\<close> on a \<^verbatim>\<open>defaultdict(list)\<close>: a key that is absent
  is first inserted with the empty list.
\<close>

definition append_default :: "string \<Rightarrow> 'a \<Rightarrow> 'a list dict \<Rightarrow> 'a list dict" where
  "append_default k x d =
     (case map_of d k of
        None \<Rightarrow> d @ [(k, [x])]
      | Some l \<Rightarrow> AList.update k (l @ [x]) d)"

fun group_loop :: "string list \<Rightarrow> string list dict \<Rightarrow> string list dict" where
  "group_loop [] grouped = grouped"
| "group_loop (item # items) grouped =
     group_loop items (append_default (base_name item) item grouped)"

text \<open>\<^verbatim>\<open>CelebrationPackChecker.group_items_by_base_name\<close>.\<close>

definition group_items_by_base_name :: "string list \<Rightarrow> string list dict" where
  "group_items_by_base_name items = group_loop items []"

section \<open>Floating-point numbers\<close>

text \<open>
  A Python \<open>float\<close> is an IEEE 754 binary64 number; it is modelled by the rational number
  it denotes. Only what the report computes is modelled: numbers that are not negative,
  in the normal range (the quotient of two list lengths and its multiples by 100 never
  overflow and are never subnormal).
\<close>

text \<open>The number of binary digits of a natural number.\<close>

fun bit_length :: "nat \<Rightarrow> nat" where
  "bit_length n = (if n = 0 then 0 else Suc (bit_length (n div 2)))"

declare bit_length.simps [simp del]

text \<open>The exponent \<open>e\<close> with \<open>2\<^sup>e \<le> x < 2\<^sup>e\<^sup>+\<^sup>1\<close>, for \<open>x > 0\<close>.\<close>

definition floor_log2 :: "rat \<Rightarrow> int" where
  "floor_log2 x =
     (if 1 \<le> x then int (bit_length (nat \<lfloor>x\<rfloor>)) - 1
      else - int (bit_length (nat \<lceil>1 / x\<rceil> - 1)))"

text \<open>The integer nearest to \<open>x\<close>; of two equally near integers, the even one.\<close>

definition round_half_even :: "rat \<Rightarrow> int" where
  "round_half_even x =
     (let f = \<lfloor>x\<rfloor>; r = x - of_int f
      in if r < 1 / 2 then f else if 1 / 2 < r then f + 1 else if even f then f else f + 1)"

text \<open>
  The binary64 number nearest to \<open>x \<ge> 0\<close>, ties to the even significand: the multiple
  of \<open>2\<^sup>e\<^sup>-\<^sup>5\<^sup>2\<close> nearest to \<open>x\<close>, where \<open>2\<^sup>e \<le> x < 2\<^sup>e\<^sup>+\<^sup>1\<close>. Every arithmetic
  operation on floats returns the exact result rounded in this way.
\<close>

definition to_double :: "rat \<Rightarrow> rat" where
  "to_double x =
     (if x = 0 then 0
      else let ulp = 2 powi (floor_log2 x - 52)
           in of_int (round_half_even (x / ulp)) * ulp)"

text \<open>\<^verbatim>\<open>a / b\<close> on two \<open>int\<close>s; \<open>None\<close> is the \<open>ZeroDivisionError\<close>.\<close>

definition int_truediv :: "nat \<Rightarrow> nat \<Rightarrow> rat option" where
  "int_truediv a b = (if b = 0 then None else Some (to_double (of_nat a / of_nat b)))"

text \<open>\<^verbatim>\<open>x * y\<close> on floats (an \<open>int\<close> operand such as \<open>100\<close> is converted exactly).\<close>

definition float_mul :: "rat \<Rightarrow> rat \<Rightarrow> rat" where
  "float_mul x y = to_double (x * y)"

text \<open>
  \<^verbatim>\<open>round(x, ndigits)\<close> on a float: the decimal number with \<open>ndigits\<close> digits after the
  point nearest to the exact value of \<open>x\<close> (ties to the even digit), converted back to
  the nearest float.
\<close>

definition float_round :: "rat \<Rightarrow> nat \<Rightarrow> rat" where
  "float_round x ndigits =
     to_double (of_int (round_half_even (x * 10 ^ ndigits)) / 10 ^ ndigits)"

section \<open>The report\<close>

text \<open>A Python number that is an \<open>int\<close> or a \<open>float\<close>.\<close>

datatype number = PyInt int | PyFloat rat

text \<open>
  The dict \<^verbatim>\<open>generate_report\<close> returns, with the four entries of \<open>summary\<close> as fields
  of their own.
\<close>

record report =
  total_celebration_items :: nat
  total_owned :: nat
  total_missing :: nat
  completion_percentage :: number
  owned_by_category :: "string list dict"
  missing_by_category :: "string list dict"
  timestamp :: string

text \<open>
  \<^verbatim>\<open>CelebrationPackChecker.generate_report\<close>. \<open>now\<close> is the string
  \<^verbatim>\<open>time.strftime("%Y-%m-%d %H:%M:%S")\<close> returns at the call.
\<close>

definition generate_report :: "string \<Rightarrow> checker \<Rightarrow> error + report" where
  "generate_report now s =
     (let total_celebration = total_len (celebration_items s);
          total_owned' = total_len (owned_items s);
          total_missing' = total_len (missing_items s);
          percentage =
            (if total_celebration > 0 then
               (case int_truediv total_owned' total_celebration of
                  None \<Rightarrow> Inl ZeroDivisionError
                | Some ratio \<Rightarrow> Inr (PyFloat (float_round (float_mul ratio 100) 2)))
             else Inr (PyInt 0))
      in case percentage of
           Inl e \<Rightarrow> Inl e
         | Inr p \<Rightarrow>
             Inr \<lparr>total_celebration_items = total_celebration,
                  total_owned = total_owned',
                  total_missing = total_missing',
                  completion_percentage = p,
                  owned_by_category = owned_items s,
                  missing_by_category = missing_items s,
                  timestamp = now\<rparr>)"

section \<open>Statements of the specification, and providers used as examples\<close>

text \<open>
  The qualifying test of the partial pass as the specification words it: the normalised
  item name is a non-empty substring of the normalised candidate name, the candidate is
  owned, and every word of the former is a word of the latter.
\<close>

definition spec_qualifies :: "string \<Rightarrow> candidate \<Rightarrow> bool" where
  "spec_qualifies target c \<longleftrightarrow>
     target \<noteq> [] \<and> contains (normalize_name (name c)) target \<and> is_owned c \<and>
     set (split target) \<subseteq> set (split (normalize_name (name c)))"

text \<open>Three lookup providers, given by the list each answers to a query.\<close>

definition black_ice_search :: "string \<Rightarrow> candidate list" where
  "black_ice_search query =
     (if query = ''Black Ice!'' then [\<lparr>name = ''Blue Ice'', is_owned = True\<rparr>]
      else if query = ''Black Ice'' then
        [\<lparr>name = ''Black Ice - R4-C'', is_owned = True\<rparr>, \<lparr>name = ''BLACK ICE'', is_owned = False\<rparr>]
      else [])"

definition lone_wolf_search :: "string \<Rightarrow> candidate list" where
  "lone_wolf_search query =
     (if query = ''Lone Wolf'' then
        [\<lparr>name = ''Lone Wolf - Charm'', is_owned = True\<rparr>,
         \<lparr>name = ''LONE WOLF'', is_owned = False\<rparr>,
         \<lparr>name = ''Lone Wolf'', is_owned = True\<rparr>]
      else [])"

definition ace_search :: "string \<Rightarrow> candidate list" where
  "ace_search query =
     (if query = ''Ace's Hat'' then []
      else if query = ''Aces Hat'' then [\<lparr>name = ''ACES HAT'', is_owned = True\<rparr>]
      else [])"

text \<open>
  The characters the specification keeps when it strips a name: alphanumeric, whitespace
  or dash. The normaliser and the term generator follow, as the specification words them.
\<close>

definition spec_kept :: "char \<Rightarrow> bool" where
  "spec_kept c \<longleftrightarrow> is_alnum c \<or> is_space c \<or> c = CHR ''-''"

definition spec_strip_special :: "string \<Rightarrow> string" where
  "spec_strip_special s = filter spec_kept s"

definition spec_normalize :: "string \<Rightarrow> string" where
  "spec_normalize s = strip (upper (spec_strip_special s))"

text \<open>
  The generated terms as the specification words them: the name; the stripped variant if
  it differs; and, when the name has a character that is not kept, the last word of the
  stripped variant and then its last two words joined by a space. Where the stripped
  variant has no word there is no last word to append.
\<close>

definition spec_generate_terms :: "string \<Rightarrow> string list" where
  "spec_generate_terms s =
     (let stripped = spec_strip_special s;
          words = split stripped
      in [s]
         @ (if stripped \<noteq> s then [stripped] else [])
         @ (if list_ex (\<lambda>c. \<not> spec_kept c) s then
              (if words = [] then [] else [last words])
              @ (if length words \<ge> 2 then [join '' '' (drop (length words - 2) words)] else [])
            else []))"

text \<open>
  The completion percentage as the specification words it,
  \<^verbatim>\<open>round(100 * totalOwned / totalCatalog, 2)\<close> and 0 for an empty catalog: the product
  is formed first, on integers, and one division follows.
\<close>

definition spec_completion :: "nat \<Rightarrow> nat \<Rightarrow> number" where
  "spec_completion totalOwned totalCatalog =
     (if totalCatalog = 0 then PyInt 0
      else PyFloat (float_round (to_double (of_nat (100 * totalOwned) / of_nat totalCatalog)) 2))"

section \<open>Views of a run used in the statements\<close>

text \<open>The elements of a list in the order in which each is first met.\<close>

fun first_seen :: "'a list \<Rightarrow> 'a list" where
  "first_seen [] = []"
| "first_seen (x # xs) = x # removeAll x (first_seen xs)"

text \<open>
  The entries of a dict of lists as pairs of a key and an element, in the order of the
  dict and of each list. For the catalog these are the items in the order the run meets
  them, each with its category; \<open>map snd (tagged catalog)\<close> is the sequence of item
  names, which the counter \<open>checked\<close> numbers from 1.
\<close>

definition tagged :: "'a list dict \<Rightarrow> (string \<times> 'a) list" where
  "tagged d = concat (map (\<lambda>(k, l). map (Pair k) l) d)"

text \<open>
  The run read off the flattened catalog, with no dicts, for a run in which every
  statement outside the \<^verbatim>\<open>try\<close> blocks completes: the pairs appended to an owned
  list, the pairs appended to a missing list, and whether a \<open>KeyboardInterrupt\<close> ended
  it. \<open>checked\<close> is the number of items met before.
\<close>

fun classify ::
  "(nat \<Rightarrow> string \<Rightarrow> bool outcome) \<Rightarrow> (nat \<Rightarrow> bool) \<Rightarrow> nat \<Rightarrow> (string \<times> string) list
     \<Rightarrow> (string \<times> string) list \<times> (string \<times> string) list \<times> bool" where
  "classify resolver sleep checked [] = ([], [], False)"
| "classify resolver sleep checked (p # ps) =
     (case resolver (Suc checked) (snd p) of
        Interrupted \<Rightarrow> ([], [], True)
      | Raised \<Rightarrow>
          (case classify resolver sleep (Suc checked) ps of
             (os, ms, stopped) \<Rightarrow> (os, p # ms, stopped))
      | Returned owned \<Rightarrow>
          (case (if sleep (Suc checked) then ([], [], True)
                 else classify resolver sleep (Suc checked) ps) of
             (os, ms, stopped) \<Rightarrow>
               if owned then (p # os, ms, stopped) else (os, p # ms, stopped)))"

text \<open>
  Item \<open>i\<close> (counted from 0, so the call numbered \<open>Suc i\<close>) passes its \<^verbatim>\<open>try\<close>
  block with no \<open>KeyboardInterrupt\<close>, in the lookup or in the pause after it.
\<close>

definition undisturbed ::
  "(nat \<Rightarrow> string \<Rightarrow> bool outcome) \<Rightarrow> (nat \<Rightarrow> bool) \<Rightarrow> string list \<Rightarrow> nat \<Rightarrow> bool" where
  "undisturbed resolver sleep xs i \<longleftrightarrow>
     (case resolver (Suc i) (xs ! i) of
        Returned owned \<Rightarrow> \<not> sleep (Suc i)
      | Raised \<Rightarrow> True
      | Interrupted \<Rightarrow> False)"

text \<open>
  The cancellation arrives inside a \<^verbatim>\<open>try\<close> block after \<open>k\<close> items: the first \<open>k\<close>
  items are classified and the \<open>KeyboardInterrupt\<close> is raised in the pause after item
  \<open>k\<close>, or it is raised in the lookup of item \<open>k + 1\<close> before anything is recorded
  for it. No \<open>KeyboardInterrupt\<close> is raised in an earlier lookup or pause.
\<close>

definition cancelled_after ::
  "(nat \<Rightarrow> string \<Rightarrow> bool outcome) \<Rightarrow> (nat \<Rightarrow> bool) \<Rightarrow> string list \<Rightarrow> nat \<Rightarrow> bool" where
  "cancelled_after resolver sleep xs k \<longleftrightarrow>
     k \<le> length xs \<and> (\<forall>i<k - 1. undisturbed resolver sleep xs i) \<and>
     (0 < k \<and> (\<exists>owned. resolver k (xs ! (k - 1)) = Returned owned) \<and> sleep k
      \<or> k < length xs \<and> (0 < k \<longrightarrow> undisturbed resolver sleep xs (k - 1)) \<and>
        resolver (Suc k) (xs ! k) = Interrupted)"

text \<open>The checker carried by a step, and whether the step is a \<^verbatim>\<open>return\<close>.\<close>

fun state_of :: "step \<Rightarrow> checker" where
  "state_of (Next s) = s"
| "state_of (Stop s) = s"

fun stopped :: "step \<Rightarrow> bool" where
  "stopped (Next s) = False"
| "stopped (Stop s) = True"

text \<open>The two result dicts have the same keys in the same order.\<close>

definition same_keys :: "checker \<Rightarrow> checker \<Rightarrow> bool" where
  "same_keys s s' \<longleftrightarrow>
     map fst (owned_items s') = map fst (owned_items s) \<and>
     map fst (missing_items s') = map fst (missing_items s)"

text \<open>
  A catalog of ten items in three categories, a resolver whose second call raises an
  exception and whose other calls find only \<open>Ace Hat\<close> owned, a pause interrupted after
  the third item, and a pause that is never interrupted.
\<close>

definition demo_catalog :: "string list dict" where
  "demo_catalog =
     [(''HEADGEAR'', [''Ace Hat'', ''Ash Cap'', ''Fuze Helm'', ''Kapkan Hood'']),
      (''UNIFORMS'', [''Ace Suit'', ''Ash Vest'', ''Fuze Coat'']),
      (''CHARMS'', [''Lone Wolf'', ''Red Crow'', ''Black Ice''])]"

definition demo_resolver :: "nat \<Rightarrow> string \<Rightarrow> bool outcome" where
  "demo_resolver n item = (if n = 2 then Raised else Returned (item = ''Ace Hat''))"

definition demo_sleep :: "nat \<Rightarrow> bool" where
  "demo_sleep n \<longleftrightarrow> n = 3"

definition never_interrupted :: "nat \<Rightarrow> bool" where
  "never_interrupted n \<longleftrightarrow> False"

text \<open>
  Statements outside the \<^verbatim>\<open>try\<close> blocks that always complete, and a progress line
  during which the \<open>KeyboardInterrupt\<close> arrives at the boundary between the third and
  the fourth item.
\<close>

definition quiet :: "nat \<Rightarrow> unit outcome" where
  "quiet n = Returned ()"

definition interrupted_before_fourth :: "nat \<Rightarrow> unit outcome" where
  "interrupted_before_fourth n = (if n = 4 then Interrupted else Returned ())"

text \<open>A checker with 160 catalog items of which 23 are owned and 137 missing.\<close>

definition report_example :: checker where
  "report_example =
     \<lparr>celebration_items = [(''WEAPON SKINS'', replicate 160 ''Black Ice'')],
      owned_items = [(''WEAPON SKINS'', replicate 23 ''Black Ice'')],
      missing_items = [(''WEAPON SKINS'', replicate 137 ''Black Ice'')]\<rparr>"

section \<open>Properties of the resolver\<close>

lemma startswith_iff: "startswith s sub \<longleftrightarrow> (\<exists>ss. s = sub @ ss)"
  unfolding startswith_def
  by (metis append_eq_conv_conj append_take_drop_id)

lemma contains_iff: "contains s sub \<longleftrightarrow> (\<exists>ps ss. s = ps @ sub @ ss)"
proof (induction s)
  case Nil
  then show ?case by auto
next
  case (Cons c cs)
  show ?case
  proof
    assume "contains (c # cs) sub"
    then consider "startswith (c # cs) sub" | "contains cs sub" by auto
    then show "\<exists>ps ss. c # cs = ps @ sub @ ss"
    proof cases
      case 1
      then obtain ss where "c # cs = sub @ ss" by (auto simp: startswith_iff)
      then have "c # cs = [] @ sub @ ss" by simp
      then show ?thesis by blast
    next
      case 2
      then obtain ps ss where "cs = ps @ sub @ ss" using Cons.IH by auto
      then have "c # cs = (c # ps) @ sub @ ss" by simp
      then show ?thesis by blast
    qed
  next
    assume "\<exists>ps ss. c # cs = ps @ sub @ ss"
    then obtain ps ss where eq: "c # cs = ps @ sub @ ss" by auto
    show "contains (c # cs) sub"
    proof (cases ps)
      case Nil
      then have "startswith (c # cs) sub" using eq by (auto simp: startswith_iff)
      then show ?thesis by simp
    next
      case (Cons p ps')
      then have "cs = ps' @ sub @ ss" using eq by simp
      then have "contains cs sub" using Cons.IH by blast
      then show ?thesis by simp
    qed
  qed
qed

lemma exact_pass_find:
  "exact_pass t rs = map_option is_owned (find (\<lambda>c. normalize_name (name c) = t) rs)"
  by (induction rs) (auto simp: Let_def)

lemma exact_pass_None_iff:
  "exact_pass t rs = None \<longleftrightarrow> (\<forall>c\<in>set rs. normalize_name (name c) \<noteq> t)"
  by (induction rs) (auto simp: Let_def)

lemma exact_pass_earliest:
  "i < length rs \<Longrightarrow> normalize_name (name (rs ! i)) = t \<Longrightarrow>
   (\<forall>j<i. normalize_name (name (rs ! j)) \<noteq> t) \<Longrightarrow> exact_pass t rs = Some (is_owned (rs ! i))"
proof (induction rs arbitrary: i)
  case Nil
  then show ?case by simp
next
  case (Cons r rs)
  show ?case
  proof (cases i)
    case 0
    then show ?thesis using Cons.prems by (simp add: Let_def)
  next
    case (Suc k)
    have "normalize_name (name r) \<noteq> t" using Cons.prems(3) Suc by auto
    moreover have "exact_pass t rs = Some (is_owned (rs ! k))"
      using Cons.prems Suc by (intro Cons.IH) auto
    ultimately show ?thesis using Suc by (simp add: Let_def)
  qed
qed

lemma partial_pass_iff: "partial_pass t rs \<longleftrightarrow> (\<exists>c\<in>set rs. partial_match t c)"
  by (induction rs) auto

lemma partial_match_iff:
  "partial_match t c \<longleftrightarrow>
     (\<exists>ps ss. normalize_name (name c) = ps @ t @ ss) \<and> is_owned c \<and>
     (\<forall>w\<in>set (split t). w \<in> set (split (normalize_name (name c))))"
  by (auto simp: partial_match_def Let_def contains_iff)

lemma check_terms_skip:
  "\<forall>t\<in>set earlier. check_results item (search_item t) = None \<Longrightarrow>
   check_terms search_item item (earlier @ rest) = check_terms search_item item rest"
  by (induction earlier) auto

lemma check_results_empty: "check_results item [] = None"
  by (simp add: check_results_def)

lemma check_results_exact:
  "exact_pass (normalize_name item) rs = Some b \<Longrightarrow> check_results item rs = Some b"
  by (cases rs) (auto simp: check_results_def Let_def)

lemma check_results_None_iff:
  "check_results item_name results = None \<longleftrightarrow>
     results = [] \<or>
     (\<forall>c\<in>set results. normalize_name (name c) \<noteq> normalize_name item_name) \<and>
     (\<forall>c\<in>set results. \<not> partial_match (normalize_name item_name) c)"
proof (cases "exact_pass (normalize_name item_name) results")
  case None
  then show ?thesis
    using exact_pass_None_iff [of "normalize_name item_name" results]
    by (auto simp: check_results_def Let_def partial_pass_iff)
next
  case (Some b)
  then have "\<not> (\<forall>c\<in>set results. normalize_name (name c) \<noteq> normalize_name item_name)"
    using exact_pass_None_iff [of "normalize_name item_name" results] by simp
  moreover have "results \<noteq> []" using Some by auto
  ultimately show ?thesis using Some by (simp add: check_results_def Let_def)
qed

text \<open>
  Claim C1. Let the loop of \<^verbatim>\<open>check_ownership\<close> come to a search term, every earlier term
  having given no verdict (its results were empty, or held neither an exact nor a
  qualifying partial match: \<open>check_results_None_iff\<close>), and let the results of that
  term hold a candidate whose normalised name is the normalised item name; \<open>c\<close> is
  the one the first loop meets. Then the resolution ends in the exact pass of that term,
  and the verdict is the ownership flag of \<open>c\<close>: owned if it is set, missing if not,
  whatever other candidates of the list an owned partial match would accept.
\<close>

theorem exact_match_decides:
  assumes "get_search_terms item_name = earlier @ search_term # later"
    and "\<forall>t\<in>set earlier. check_results item_name (search_item t) = None"
    and "find (\<lambda>c. normalize_name (name c) = normalize_name item_name)
           (search_item search_term) = Some c"
  shows "check_results item_name (search_item search_term) = Some (is_owned c) \<and>
         check_ownership search_item item_name = is_owned c"
proof -
  have "exact_pass (normalize_name item_name) (search_item search_term) = Some (is_owned c)"
    using assms(3) by (simp add: exact_pass_find)
  then have r: "check_results item_name (search_item search_term) = Some (is_owned c)"
    by (rule check_results_exact)
  have "check_ownership search_item item_name
          = check_terms search_item item_name (search_term # later)"
    using assms(1,2) by (simp add: check_ownership_def check_terms_skip)
  with r show ?thesis by simp
qed

theorem exact_match_decides_witness:
  "get_search_terms ''Black Ice!'' = [''Black Ice!''] @ ''Black Ice'' # [''Ice'', ''Black Ice''] \<and>
   check_results ''Black Ice!'' (black_ice_search ''Black Ice!'') = None \<and>
   find (\<lambda>c. normalize_name (name c) = normalize_name ''Black Ice!'')
     (black_ice_search ''Black Ice'') = Some \<lparr>name = ''BLACK ICE'', is_owned = False\<rparr> \<and>
   partial_match (normalize_name ''Black Ice!'') \<lparr>name = ''Black Ice - R4-C'', is_owned = True\<rparr> \<and>
   check_ownership black_ice_search ''Black Ice!'' = False"
proof -
  have h1: "get_search_terms ''Black Ice!'' = [''Black Ice!''] @ ''Black Ice'' # [''Ice'', ''Black Ice'']"
    by code_simp
  have h2: "check_results ''Black Ice!'' (black_ice_search ''Black Ice!'') = None"
    by code_simp
  then have h2': "\<forall>t\<in>set [''Black Ice!'']. check_results ''Black Ice!'' (black_ice_search t) = None"
    by simp
  have h3: "find (\<lambda>c. normalize_name (name c) = normalize_name ''Black Ice!'')
     (black_ice_search ''Black Ice'') = Some \<lparr>name = ''BLACK ICE'', is_owned = False\<rparr>"
    by code_simp
  have h4: "partial_match (normalize_name ''Black Ice!'') \<lparr>name = ''Black Ice - R4-C'', is_owned = True\<rparr>"
    by code_simp
  from exact_match_decides [OF h1 h2' h3]
  have "check_ownership black_ice_search ''Black Ice!'' = False" by simp
  with h1 h2 h3 h4 show ?thesis by blast
qed

text \<open>
  Claim C10. When the results of the term the loop has come to hold several candidates
  whose normalised names equal the normalised item name, the verdict is the ownership
  flag of the one at the least position \<open>i\<close>, whatever the flags of the later ones.
\<close>

theorem exact_tie_earliest_wins:
  assumes "get_search_terms item_name = earlier @ search_term # later"
    and "\<forall>t\<in>set earlier. check_results item_name (search_item t) = None"
    and "i < length (search_item search_term)"
    and "normalize_name (name (search_item search_term ! i)) = normalize_name item_name"
    and "\<forall>j<i. normalize_name (name (search_item search_term ! j)) \<noteq> normalize_name item_name"
  shows "check_ownership search_item item_name = is_owned (search_item search_term ! i)"
proof -
  have "exact_pass (normalize_name item_name) (search_item search_term)
          = Some (is_owned (search_item search_term ! i))"
    using assms(3,4,5) by (rule exact_pass_earliest)
  then have r: "check_results item_name (search_item search_term)
                  = Some (is_owned (search_item search_term ! i))"
    by (rule check_results_exact)
  have "check_ownership search_item item_name
          = check_terms search_item item_name (search_term # later)"
    using assms(1,2) by (simp add: check_ownership_def check_terms_skip)
  with r show ?thesis by simp
qed

theorem exact_tie_earliest_wins_witness:
  "get_search_terms ''Lone Wolf'' = [] @ ''Lone Wolf'' # [] \<and>
   normalize_name (name (lone_wolf_search ''Lone Wolf'' ! 1)) = normalize_name ''Lone Wolf'' \<and>
   normalize_name (name (lone_wolf_search ''Lone Wolf'' ! 2)) = normalize_name ''Lone Wolf'' \<and>
   normalize_name (name (lone_wolf_search ''Lone Wolf'' ! 0)) \<noteq> normalize_name ''Lone Wolf'' \<and>
   is_owned (lone_wolf_search ''Lone Wolf'' ! 1) = False \<and>
   is_owned (lone_wolf_search ''Lone Wolf'' ! 2) = True \<and>
   check_ownership lone_wolf_search ''Lone Wolf'' = False"
proof -
  have h1: "get_search_terms ''Lone Wolf'' = [] @ ''Lone Wolf'' # []" by code_simp
  have h2: "\<forall>t\<in>set []. check_results ''Lone Wolf'' (lone_wolf_search t) = None" by simp
  have h3: "1 < length (lone_wolf_search ''Lone Wolf'')" by code_simp
  have h4: "normalize_name (name (lone_wolf_search ''Lone Wolf'' ! 1)) = normalize_name ''Lone Wolf''"
    by code_simp
  have h5: "normalize_name (name (lone_wolf_search ''Lone Wolf'' ! 0)) \<noteq> normalize_name ''Lone Wolf''"
    by code_simp
  then have h5': "\<forall>j<1. normalize_name (name (lone_wolf_search ''Lone Wolf'' ! j))
                    \<noteq> normalize_name ''Lone Wolf''" by simp
  have h6: "normalize_name (name (lone_wolf_search ''Lone Wolf'' ! 2)) = normalize_name ''Lone Wolf''"
    by code_simp
  have h7: "is_owned (lone_wolf_search ''Lone Wolf'' ! 1) = False" by code_simp
  have h8: "is_owned (lone_wolf_search ''Lone Wolf'' ! 2) = True" by code_simp
  from exact_tie_earliest_wins [OF h1 h2 h3 h4 h5'] h7
  have "check_ownership lone_wolf_search ''Lone Wolf'' = False" by simp
  with h1 h4 h5 h6 h7 h8 show ?thesis by blast
qed

lemma check_terms_all_empty:
  "\<forall>t\<in>set search_terms. search_item t = [] \<Longrightarrow>
   check_terms search_item item_name search_terms = False"
  by (induction search_terms) (auto simp: check_results_empty)

lemma check_results_aces_hat:
  "check_results ''Ace's Hat'' [\<lparr>name = ''ACES HAT'', is_owned = owned\<rparr>] = Some owned"
proof (cases owned)
  case True
  have "check_results ''Ace's Hat'' [\<lparr>name = ''ACES HAT'', is_owned = True\<rparr>] = Some True"
    by code_simp
  with True show ?thesis by simp
next
  case False
  have "check_results ''Ace's Hat'' [\<lparr>name = ''ACES HAT'', is_owned = False\<rparr>] = Some False"
    by code_simp
  with False show ?thesis by simp
qed

text \<open>
  Claim C5. A term whose lookup gives no candidate is passed over and the loop goes on
  with the next term: the verdict of the loop is that of the remaining terms; when the
  next term gives a verdict, that verdict is the result; and when every term gives no
  candidate the result is \<open>False\<close>. In \<^verbatim>\<open>check_ownership\<close>, when the generated terms
  before some term all give no candidate and that term gives a verdict, the verdict is
  the result. For the item \<open>Ace's Hat\<close>, a provider that answers the query \<open>Ace's Hat\<close>
  with the empty list and the query \<open>Aces Hat\<close> with the one candidate \<open>ACES HAT\<close>
  makes \<^verbatim>\<open>check_ownership\<close> return the ownership flag of that candidate, \<open>True\<close> for an
  owned one: the second generated term is the stripped name.
\<close>

theorem empty_results_next_term:
  "(search_item search_term = [] \<longrightarrow>
      check_terms search_item item_name (search_term # search_terms)
        = check_terms search_item item_name search_terms) \<and>
   (search_item search_term = [] \<and>
    check_results item_name (search_item next_term) = Some b \<longrightarrow>
      check_terms search_item item_name (search_term # next_term # search_terms) = b) \<and>
   ((\<forall>t\<in>set empty_terms. search_item t = []) \<longrightarrow>
      check_terms search_item item_name empty_terms = False) \<and>
   (get_search_terms item_name = earlier_terms @ answering_term # later_terms \<and>
    (\<forall>t\<in>set earlier_terms. search_item t = []) \<and>
    check_results item_name (search_item answering_term) = Some b \<longrightarrow>
      check_ownership search_item item_name = b) \<and>
   (search_item ''Ace's Hat'' = [] \<and>
    search_item ''Aces Hat'' = [\<lparr>name = ''ACES HAT'', is_owned = owned\<rparr>] \<longrightarrow>
      get_search_terms ''Ace's Hat'' ! 1 = ''Aces Hat'' \<and>
      check_ownership search_item ''Ace's Hat'' = owned)"
proof (intro conjI impI)
  assume "search_item search_term = []"
  then show "check_terms search_item item_name (search_term # search_terms)
        = check_terms search_item item_name search_terms"
    by (simp add: check_results_empty)
next
  assume "search_item search_term = [] \<and>
    check_results item_name (search_item next_term) = Some b"
  then show "check_terms search_item item_name (search_term # next_term # search_terms) = b"
    by (simp add: check_results_empty)
next
  assume "\<forall>t\<in>set empty_terms. search_item t = []"
  then show "check_terms search_item item_name empty_terms = False"
    by (rule check_terms_all_empty)
next
  assume a: "get_search_terms item_name = earlier_terms @ answering_term # later_terms \<and>
    (\<forall>t\<in>set earlier_terms. search_item t = []) \<and>
    check_results item_name (search_item answering_term) = Some b"
  then have "\<forall>t\<in>set earlier_terms. check_results item_name (search_item t) = None"
    by (simp add: check_results_empty)
  then have "check_terms search_item item_name (earlier_terms @ answering_term # later_terms)
               = check_terms search_item item_name (answering_term # later_terms)"
    by (rule check_terms_skip)
  with a show "check_ownership search_item item_name = b"
    by (simp add: check_ownership_def)
next
  show "get_search_terms ''Ace's Hat'' ! 1 = ''Aces Hat''" by code_simp
next
  assume a: "search_item ''Ace's Hat'' = [] \<and>
    search_item ''Aces Hat'' = [\<lparr>name = ''ACES HAT'', is_owned = owned\<rparr>]"
  have terms: "get_search_terms ''Ace's Hat'' = [''Ace's Hat'', ''Aces Hat'', ''Hat'', ''Aces Hat'']"
    by code_simp
  from a show "check_ownership search_item ''Ace's Hat'' = owned"
    by (simp add: check_ownership_def terms check_results_aces_hat check_results_empty)
qed

theorem empty_results_next_term_witness:
  "ace_search ''Ace's Hat'' = [] \<and>
   ace_search ''Aces Hat'' = [\<lparr>name = ''ACES HAT'', is_owned = True\<rparr>] \<and>
   check_results ''Ace's Hat'' (ace_search ''Aces Hat'') = Some True \<and>
   ace_search ''Hat'' = [] \<and>
   get_search_terms ''Ace's Hat'' = [''Ace's Hat''] @ ''Aces Hat'' # [''Hat'', ''Aces Hat''] \<and>
   check_terms ace_search ''Ace's Hat'' [''Ace's Hat'', ''Hat'', ''Aces Hat'']
     = check_terms ace_search ''Ace's Hat'' [''Hat'', ''Aces Hat''] \<and>
   check_terms ace_search ''Ace's Hat'' [''Ace's Hat'', ''Aces Hat'', ''Hat'', ''Aces Hat'']
     = True \<and>
   check_terms ace_search ''Ace's Hat'' [''Ace's Hat'', ''Hat''] = False \<and>
   get_search_terms ''Ace's Hat'' ! 1 = ''Aces Hat'' \<and>
   check_ownership ace_search ''Ace's Hat'' = True"
proof -
  have h1: "ace_search ''Ace's Hat'' = []" by code_simp
  have h2: "ace_search ''Aces Hat'' = [\<lparr>name = ''ACES HAT'', is_owned = True\<rparr>]" by code_simp
  have h3: "check_results ''Ace's Hat'' (ace_search ''Aces Hat'') = Some True" by code_simp
  have h4: "\<forall>t\<in>set [''Ace's Hat'', ''Hat'']. ace_search t = []" by code_simp
  have h5: "get_search_terms ''Ace's Hat''
              = [''Ace's Hat''] @ ''Aces Hat'' # [''Hat'', ''Aces Hat'']" by code_simp
  have h6: "\<forall>t\<in>set [''Ace's Hat'']. ace_search t = []" using h1 by simp
  note t = empty_results_next_term
    [where search_item = ace_search and item_name = "''Ace's Hat''"
       and search_term = "''Ace's Hat''" and search_terms = "[''Hat'', ''Aces Hat'']"
       and next_term = "''Aces Hat''" and b = True
       and empty_terms = "[''Ace's Hat'', ''Hat'']"
       and earlier_terms = "[''Ace's Hat'']" and answering_term = "''Aces Hat''"
       and later_terms = "[''Hat'', ''Aces Hat'']" and owned = True]
  from t h1 have c1:
    "check_terms ace_search ''Ace's Hat'' (''Ace's Hat'' # [''Hat'', ''Aces Hat''])
       = check_terms ace_search ''Ace's Hat'' [''Hat'', ''Aces Hat'']" by blast
  from t h1 h3 have c2:
    "check_terms ace_search ''Ace's Hat'' (''Ace's Hat'' # ''Aces Hat'' # [''Hat'', ''Aces Hat''])
       = True" by blast
  from t h4 have c3: "check_terms ace_search ''Ace's Hat'' [''Ace's Hat'', ''Hat''] = False"
    by blast
  from t h5 h6 h3 have c4: "check_ownership ace_search ''Ace's Hat'' = True" by blast
  from t h1 h2 have c5: "get_search_terms ''Ace's Hat'' ! 1 = ''Aces Hat'' \<and>
      check_ownership ace_search ''Ace's Hat'' = True" by blast
  have h7: "ace_search ''Hat'' = []" by code_simp
  from h1 h2 h3 h5 h7 c1 c2 c3 c4 c5 show ?thesis by blast
qed

lemma split_red: "split ''RED'' = [''RED'']" by code_simp
lemma split_infrared: "split ''INFRARED SCOPE'' = [''INFRARED'', ''SCOPE'']" by code_simp
lemma split_black_ice: "split ''BLACK ICE'' = [''BLACK'', ''ICE'']" by code_simp
lemma split_black_ice_r4c: "split ''BLACK ICE - R4-C'' = [''BLACK'', ''ICE'', ''-'', ''R4-C'']"
  by code_simp
lemma contains_black_ice: "contains ''BLACK ICE - R4-C'' ''BLACK ICE''" by code_simp

text \<open>
  Claim C2, as stated, fails for an item whose normalised name is empty: the name \<open>???\<close>
  normalises to the empty string, which \<^verbatim>\<open>in\<close> finds in every string and whose word
  set is empty, so an owned candidate named \<open>X\<close> is accepted by the partial pass,
  while the empty string is not a non-empty substring.
\<close>

theorem partial_pass_empty_target_counterexample:
  "[\<lparr>name = ''X'', is_owned = True\<rparr>] \<noteq> [] \<and>
   exact_pass (normalize_name ''???'') [\<lparr>name = ''X'', is_owned = True\<rparr>] = None \<and>
   check_results ''???'' [\<lparr>name = ''X'', is_owned = True\<rparr>] = Some True \<and>
   \<not> spec_qualifies (normalize_name ''???'') \<lparr>name = ''X'', is_owned = True\<rparr>"
  by code_simp

text \<open>
  Claim C2, amended. When the results of a term are not empty and hold no candidate with
  an equal normalised name, the verdict for the term is owned if and only if some
  candidate is owned, has the normalised item name as a (possibly empty) contiguous part
  of its normalised name, and has every word of the normalised item name among its
  words; no verdict of missing is given for the term. An item normalising to \<open>RED\<close>
  gets no verdict from a candidate normalising to \<open>INFRARED SCOPE\<close>, and an item
  normalising to \<open>BLACK ICE\<close> is owned by an owned candidate normalising to
  \<open>BLACK ICE - R4-C\<close>.
\<close>

theorem partial_pass_rule:
  "(results \<noteq> [] \<and> exact_pass (normalize_name item_name) results = None \<longrightarrow>
      (check_results item_name results = Some True \<longleftrightarrow>
         (\<exists>c\<in>set results.
            (\<exists>ps ss. normalize_name (name c) = ps @ normalize_name item_name @ ss) \<and>
            is_owned c \<and>
            (\<forall>w\<in>set (split (normalize_name item_name)).
               w \<in> set (split (normalize_name (name c)))))) \<and>
      check_results item_name results \<noteq> Some False) \<and>
   (normalize_name item_name = ''RED'' \<and> normalize_name (name c) = ''INFRARED SCOPE'' \<longrightarrow>
      check_results item_name [c] = None) \<and>
   (normalize_name item_name = ''BLACK ICE'' \<and> normalize_name (name c) = ''BLACK ICE - R4-C'' \<and>
    is_owned c \<longrightarrow> check_results item_name [c] = Some True)"
proof (intro conjI impI)
  assume a: "results \<noteq> [] \<and> exact_pass (normalize_name item_name) results = None"
  then show "check_results item_name results = Some True \<longleftrightarrow>
         (\<exists>c\<in>set results.
            (\<exists>ps ss. normalize_name (name c) = ps @ normalize_name item_name @ ss) \<and>
            is_owned c \<and>
            (\<forall>w\<in>set (split (normalize_name item_name)).
               w \<in> set (split (normalize_name (name c)))))"
    by (simp add: check_results_def Let_def partial_pass_iff partial_match_iff)
  from a show "check_results item_name results \<noteq> Some False"
    by (simp add: check_results_def Let_def)
next
  assume "normalize_name item_name = ''RED'' \<and> normalize_name (name c) = ''INFRARED SCOPE''"
  then show "check_results item_name [c] = None"
    by (simp add: check_results_def Let_def partial_match_def split_red split_infrared)
next
  assume "normalize_name item_name = ''BLACK ICE'' \<and> normalize_name (name c) = ''BLACK ICE - R4-C'' \<and>
    is_owned c"
  then show "check_results item_name [c] = Some True"
    by (simp add: check_results_def Let_def partial_match_def split_black_ice split_black_ice_r4c
        contains_black_ice del: contains.simps)
qed

theorem partial_pass_rule_witness:
  "[\<lparr>name = ''Infrared Scope'', is_owned = True\<rparr>, \<lparr>name = ''Black Ice - R4-C'', is_owned = True\<rparr>] \<noteq> [] \<and>
   exact_pass (normalize_name ''Black Ice'')
     [\<lparr>name = ''Infrared Scope'', is_owned = True\<rparr>, \<lparr>name = ''Black Ice - R4-C'', is_owned = True\<rparr>] = None \<and>
   check_results ''Black Ice''
     [\<lparr>name = ''Infrared Scope'', is_owned = True\<rparr>, \<lparr>name = ''Black Ice - R4-C'', is_owned = True\<rparr>] = Some True \<and>
   normalize_name ''Red'' = ''RED'' \<and>
   normalize_name (name \<lparr>name = ''Infrared Scope'', is_owned = True\<rparr>) = ''INFRARED SCOPE'' \<and>
   check_results ''Red'' [\<lparr>name = ''Infrared Scope'', is_owned = True\<rparr>] = None \<and>
   normalize_name ''Black Ice'' = ''BLACK ICE'' \<and>
   normalize_name (name \<lparr>name = ''Black Ice - R4-C'', is_owned = True\<rparr>) = ''BLACK ICE - R4-C'' \<and>
   check_results ''Black Ice'' [\<lparr>name = ''Black Ice - R4-C'', is_owned = True\<rparr>] = Some True"
proof -
  let ?inf = "\<lparr>name = ''Infrared Scope'', is_owned = True\<rparr>"
  let ?bi = "\<lparr>name = ''Black Ice - R4-C'', is_owned = True\<rparr>"
  have h1: "exact_pass (normalize_name ''Black Ice'') [?inf, ?bi] = None" by code_simp
  have h2: "normalize_name ''Red'' = ''RED''" by code_simp
  have h3: "normalize_name (name ?inf) = ''INFRARED SCOPE''" by code_simp
  have h4: "normalize_name ''Black Ice'' = ''BLACK ICE''" by code_simp
  have h5: "normalize_name (name ?bi) = ''BLACK ICE - R4-C''" by code_simp
  have h6: "is_owned ?bi" by simp
  have q: "\<exists>c\<in>set [?inf, ?bi].
            (\<exists>ps ss. normalize_name (name c) = ps @ normalize_name ''Black Ice'' @ ss) \<and>
            is_owned c \<and>
            (\<forall>w\<in>set (split (normalize_name ''Black Ice'')).
               w \<in> set (split (normalize_name (name c))))"
  proof -
    have "normalize_name (name ?bi) = [] @ normalize_name ''Black Ice'' @ '' - R4-C''"
      by code_simp
    moreover have "\<forall>w\<in>set (split (normalize_name ''Black Ice'')).
               w \<in> set (split (normalize_name (name ?bi)))"
      by code_simp
    ultimately have "(\<exists>ps ss. normalize_name (name ?bi) = ps @ normalize_name ''Black Ice'' @ ss) \<and>
            is_owned ?bi \<and>
            (\<forall>w\<in>set (split (normalize_name ''Black Ice'')).
               w \<in> set (split (normalize_name (name ?bi))))"
      using h6 by blast
    moreover have "?bi \<in> set [?inf, ?bi]" by simp
    ultimately show ?thesis by (rule rev_bexI [rotated])
  qed
  from partial_pass_rule [of "[?inf, ?bi]" "''Black Ice''" ?bi] h1 h4 h5 h6 q
  have r1: "check_results ''Black Ice'' [?inf, ?bi] = Some True"
    and r3: "check_results ''Black Ice'' [?bi] = Some True" by simp_all
  from partial_pass_rule [of "[?inf]" "''Red''" ?inf] h2 h3
  have r2: "check_results ''Red'' [?inf] = None" by simp
  from h1 h2 h3 h4 h5 r1 r2 r3 show ?thesis by simp
qed

section \<open>Properties of the normaliser and of the term generator\<close>

lemma is_special_iff: "is_special c \<longleftrightarrow> \<not> spec_kept c \<and> c \<noteq> CHR ''_''"
  by (auto simp: is_special_def spec_kept_def is_word_def)

lemma remove_special_no_underscore:
  "CHR ''_'' \<notin> set s \<Longrightarrow> remove_special s = spec_strip_special s"
  unfolding remove_special_def spec_strip_special_def
  by (rule filter_cong) (auto simp: is_special_iff)

lemma has_special_no_underscore:
  "CHR ''_'' \<notin> set s \<Longrightarrow> has_special s \<longleftrightarrow> list_ex (\<lambda>c. \<not> spec_kept c) s"
  by (auto simp: has_special_def list_ex_iff is_special_iff)

lemma normalize_name_no_underscore:
  "CHR ''_'' \<notin> set s \<Longrightarrow> normalize_name s = spec_normalize s"
  by (simp add: normalize_name_def spec_normalize_def remove_special_no_underscore)

lemma get_search_terms_no_underscore:
  "CHR ''_'' \<notin> set s \<Longrightarrow> get_search_terms s = spec_generate_terms s"
  by (simp add: get_search_terms_def spec_generate_terms_def Let_def
      remove_special_no_underscore has_special_no_underscore)

lemma get_search_terms_first: "hd (get_search_terms s) = s"
  by (simp add: get_search_terms_def Let_def)

lemma get_search_terms_length:
  "1 \<le> length (get_search_terms s) \<and> length (get_search_terms s) \<le> 4"
  by (simp add: get_search_terms_def Let_def)

lemma remove_special_changes_iff: "remove_special s \<noteq> s \<longleftrightarrow> has_special s"
  by (auto simp: remove_special_def has_special_def list_ex_iff filter_id_conv)

text \<open>
  Claim C3 at the name \<open>Snake_Eyes\<close>: \<^verbatim>\<open>normalize_name\<close> keeps the underscore, which
  \<^verbatim>\<open>\w\<close> matches, and returns \<open>SNAKE_EYES\<close>; removing every character that is not
  alphanumeric, whitespace or a dash gives \<open>SNAKEEYES\<close>. On names with no underscore
  the two agree (\<open>normalize_name_no_underscore\<close>).
\<close>

theorem normalize_name_keeps_underscore:
  "normalize_name ''Snake_Eyes'' = ''SNAKE_EYES'' \<and> spec_normalize ''Snake_Eyes'' = ''SNAKEEYES''"
  by code_simp

text \<open>
  Claim C4 at the name \<open>Snake_Eyes\<close>: \<^verbatim>\<open>get_search_terms\<close> returns the name alone,
  since the pattern matches nothing in it; by the claim the underscore is a character
  outside the three kept classes, so the stripped variant \<open>SnakeEyes\<close> and its last
  word are appended. On names with no underscore the two agree
  (\<open>get_search_terms_no_underscore\<close>), the first term is always the name and the length
  is between 1 and 4 (\<open>get_search_terms_first\<close>, \<open>get_search_terms_length\<close>).
\<close>

theorem get_search_terms_ignores_underscore:
  "get_search_terms ''Snake_Eyes'' = [''Snake_Eyes''] \<and>
   spec_generate_terms ''Snake_Eyes'' = [''Snake_Eyes'', ''SnakeEyes'', ''SnakeEyes'']"
  by code_simp

section \<open>Properties of the grouping\<close>

lemma rfind_le: "rfind s sub = Some i \<Longrightarrow> i \<le> length s"
  by (induction s arbitrary: i) (auto split: option.splits if_splits)

lemma rfind_occurs: "rfind s sub = Some i \<Longrightarrow> startswith (drop i s) sub"
  by (induction s arbitrary: i) (auto simp: startswith_def split: option.splits if_splits)

lemma rfind_exists:
  "j \<le> length s \<Longrightarrow> startswith (drop j s) sub \<Longrightarrow> rfind s sub \<noteq> None"
proof (induction s arbitrary: j)
  case Nil
  then show ?case by (auto simp: startswith_def)
next
  case (Cons c cs)
  show ?case
  proof (cases j)
    case 0
    then show ?thesis using Cons.prems by (auto split: option.splits)
  next
    case (Suc k)
    then have "rfind cs sub \<noteq> None" using Cons.prems by (intro Cons.IH [of k]) auto
    then show ?thesis by (auto split: option.splits)
  qed
qed

lemma rfind_rightmost:
  "rfind s sub = Some i \<Longrightarrow> j \<le> length s \<Longrightarrow> startswith (drop j s) sub \<Longrightarrow> j \<le> i"
proof (induction s arbitrary: i j)
  case Nil
  then show ?case by (auto split: if_splits)
next
  case (Cons c cs)
  show ?case
  proof (cases j)
    case 0
    then show ?thesis by simp
  next
    case (Suc k)
    then have k: "k \<le> length cs" "startswith (drop k cs) sub" using Cons.prems by auto
    then obtain i' where i': "rfind cs sub = Some i'" using rfind_exists by blast
    then have "i = Suc i'" using Cons.prems(1) by simp
    moreover have "k \<le> i'" using Cons.IH [OF i' k] .
    ultimately show ?thesis using Suc by simp
  qed
qed

lemma rfind_None_iff: "rfind s sub = None \<longleftrightarrow> \<not> contains s sub"
  by (induction s) (auto split: option.splits)


lemma rfind_split:
  assumes "rfind s sub = Some i"
  shows "s = take i s @ sub @ drop (i + length sub) s"
proof -
  have "startswith (drop i s) sub" using assms by (rule rfind_occurs)
  then have "take (length sub) (drop i s) = sub" by (simp add: startswith_def)
  then have "drop i s = sub @ drop (length sub) (drop i s)"
    by (metis append_take_drop_id)
  then have "s = take i s @ sub @ drop (length sub) (drop i s)"
    by (metis append_take_drop_id)
  then show ?thesis by (simp add: add.commute)
qed

lemma base_name_no_separator: "\<not> contains item '' - '' \<Longrightarrow> base_name item = item"
  by (simp add: base_name_def)

lemma base_name_last_separator:
  assumes "contains item '' - ''"
  shows "\<exists>rest. item = base_name item @ '' - '' @ rest \<and>
           (\<forall>before after. item = before @ '' - '' @ after
              \<longrightarrow> length before \<le> length (base_name item))"
proof -
  obtain i where i: "rfind item '' - '' = Some i"
    using assms rfind_None_iff by (cases "rfind item '' - ''") auto
  have b: "base_name item = take i item"
    using assms i by (simp add: base_name_def rsplit1_def)
  have le: "i \<le> length item" using i by (rule rfind_le)
  have eq: "item = take i item @ '' - '' @ drop (i + length '' - '') item"
    using i by (rule rfind_split)
  have "length before \<le> length (base_name item)"
    if "item = before @ '' - '' @ after" for before after
  proof -
    have "drop (length before) item = '' - '' @ after" using that by simp
    then have "startswith (drop (length before) item) '' - ''"
      by (simp add: startswith_def)
    moreover have "length item = length (before @ '' - '' @ after)" using that by simp
    then have "length before \<le> length item" by simp
    ultimately have "length before \<le> i" using rfind_rightmost [OF i] by blast
    then show ?thesis using b le by simp
  qed
  with eq b show ?thesis by metis
qed


lemma set_first_seen: "set (first_seen xs) = set xs"
  by (induction xs) auto

lemma distinct_first_seen: "distinct (first_seen xs)"
  by (induction xs) (auto simp: set_first_seen distinct_removeAll)

lemma map_of_None_keys: "map_of d k = None \<longleftrightarrow> k \<notin> set (map fst d)"
  by (simp add: map_of_eq_None_iff)

lemma append_default_new:
  "k \<notin> set (map fst d) \<Longrightarrow> append_default k x d = d @ [(k, [x])]"
  using map_of_None_keys [of d k] by (simp add: append_default_def)

lemma keys_append_default:
  "map fst (append_default k x d) = (if k \<in> set (map fst d) then map fst d else map fst d @ [k])"
proof (cases "map_of d k")
  case None
  then have "k \<notin> set (map fst d)" using map_of_None_keys [of d k] by simp
  then show ?thesis by (simp add: append_default_new)
next
  case (Some l)
  then have "k \<in> set (map fst d)" using map_of_None_keys [of d k] by auto
  then show ?thesis using Some by (simp add: append_default_def update_keys)
qed

lemma map_of_append_default:
  "map_of (append_default k x d) =
     (map_of d)(k \<mapsto> (case map_of d k of None \<Rightarrow> [x] | Some l \<Rightarrow> l @ [x]))"
  by (cases "map_of d k") (auto simp: append_default_def update_conv' fun_eq_iff map_add_def
      split: option.splits)

lemma filter_removeAll: "filter P (removeAll b l) = filter (\<lambda>y. P y \<and> y \<noteq> b) l"
  by (induction l) auto

lemma keys_group_loop:
  "map fst (group_loop items g) =
     map fst g @ filter (\<lambda>b. b \<notin> set (map fst g)) (first_seen (map base_name items))"
proof (induction items arbitrary: g)
  case Nil
  then show ?case by simp
next
  case (Cons x xs)
  let ?b = "base_name x"
  let ?g' = "append_default ?b x g"
  have IH: "map fst (group_loop xs ?g') =
     map fst ?g' @ filter (\<lambda>b. b \<notin> set (map fst ?g')) (first_seen (map base_name xs))"
    by (rule Cons.IH)
  show ?case
  proof (cases "?b \<in> set (map fst g)")
    case True
    then have k: "map fst ?g' = map fst g" by (simp add: keys_append_default)
    have "filter (\<lambda>b. b \<notin> set (map fst g)) (removeAll ?b (first_seen (map base_name xs)))
            = filter (\<lambda>b. b \<notin> set (map fst g)) (first_seen (map base_name xs))"
      unfolding filter_removeAll using True by (intro filter_cong) auto
    then show ?thesis using IH k True by simp
  next
    case False
    then have k: "map fst ?g' = map fst g @ [?b]" by (simp add: keys_append_default)
    have "filter (\<lambda>b. b \<notin> set (map fst g)) (removeAll ?b (first_seen (map base_name xs)))
            = filter (\<lambda>b. b \<notin> set (map fst ?g')) (first_seen (map base_name xs))"
      unfolding filter_removeAll k by (intro filter_cong) auto
    then show ?thesis using IH k False by simp
  qed
qed

lemma map_of_group_loop:
  "map_of (group_loop items g) k =
     (case map_of g k of
        None \<Rightarrow> if k \<in> base_name ` set items
                then Some (filter (\<lambda>x. base_name x = k) items) else None
      | Some l \<Rightarrow> Some (l @ filter (\<lambda>x. base_name x = k) items))"
proof (induction items arbitrary: g)
  case Nil
  then show ?case by (simp split: option.splits)
next
  case (Cons x xs)
  show ?case
    by (auto simp: Cons.IH map_of_append_default split: option.splits)
qed

lemma alist_from_keys:
  "distinct (map fst d) \<Longrightarrow> map (\<lambda>k. (k, the (map_of d k))) (map fst d) = d"
proof (induction d)
  case Nil
  then show ?case by simp
next
  case (Cons p ps)
  then have "map (\<lambda>k. (k, the (map_of ps k))) (map fst ps) = ps" by simp
  moreover have "map (\<lambda>k. (k, the (map_of (p # ps) k))) (map fst ps)
                   = map (\<lambda>k. (k, the (map_of ps k))) (map fst ps)"
  proof (intro map_cong refl)
    fix k assume k: "k \<in> set (map fst ps)"
    have "fst p \<notin> set (map fst ps)" using Cons.prems by simp
    with k have "k \<noteq> fst p" by blast
    then show "(k, the (map_of (p # ps) k)) = (k, the (map_of ps k))" by (cases p) simp
  qed
  ultimately show ?case by (cases p) simp
qed

lemma group_items_by_base_name_eq:
  "group_items_by_base_name items =
     map (\<lambda>b. (b, filter (\<lambda>x. base_name x = b) items)) (first_seen (map base_name items))"
proof -
  let ?d = "group_items_by_base_name items"
  have keys: "map fst ?d = first_seen (map base_name items)"
    by (simp add: group_items_by_base_name_def keys_group_loop)
  then have "distinct (map fst ?d)" by (simp add: distinct_first_seen)
  then have "?d = map (\<lambda>k. (k, the (map_of ?d k))) (map fst ?d)"
    by (rule alist_from_keys [symmetric])
  also have "\<dots> = map (\<lambda>k. (k, the (map_of ?d k))) (first_seen (map base_name items))"
    by (simp only: keys)
  also have "\<dots> = map (\<lambda>b. (b, filter (\<lambda>x. base_name x = b) items))
                    (first_seen (map base_name items))"
    by (intro map_cong refl)
       (auto simp: set_first_seen group_items_by_base_name_def map_of_group_loop)
  finally show ?thesis .
qed

text \<open>
  Claim C9. A name that contains the separator \<open>'' - ''\<close> has as base name what
  precedes the last occurrence of the separator, and any other name is its own base
  name. The groups are the base names in the order in which each is first seen, and each
  group holds the names with that base name in input order. The three names of the
  example give the group \<open>REDHAMMER STANDARD\<close> with two members and the group
  \<open>LONE WOLF\<close> with one.
\<close>

theorem group_items_by_base_name_correct:
  "((\<exists>before after. item = before @ '' - '' @ after) \<longrightarrow>
      (\<exists>rest. item = base_name item @ '' - '' @ rest \<and>
         (\<forall>before after. item = before @ '' - '' @ after
            \<longrightarrow> length before \<le> length (base_name item)))) \<and>
   (\<not> (\<exists>before after. item = before @ '' - '' @ after) \<longrightarrow> base_name item = item) \<and>
   group_items_by_base_name items =
     map (\<lambda>b. (b, filter (\<lambda>x. base_name x = b) items)) (first_seen (map base_name items)) \<and>
   group_items_by_base_name
     [''REDHAMMER STANDARD - HEADGEAR'', ''REDHAMMER STANDARD - UNIFORM'', ''LONE WOLF'']
     = [(''REDHAMMER STANDARD'',
         [''REDHAMMER STANDARD - HEADGEAR'', ''REDHAMMER STANDARD - UNIFORM'']),
        (''LONE WOLF'', [''LONE WOLF''])]"
proof (intro conjI impI)
  assume "\<exists>before after. item = before @ '' - '' @ after"
  then have "contains item '' - ''" by (simp add: contains_iff)
  then show "\<exists>rest. item = base_name item @ '' - '' @ rest \<and>
         (\<forall>before after. item = before @ '' - '' @ after
            \<longrightarrow> length before \<le> length (base_name item))"
    by (rule base_name_last_separator)
next
  assume "\<not> (\<exists>before after. item = before @ '' - '' @ after)"
  then have "\<not> contains item '' - ''" by (simp add: contains_iff)
  then show "base_name item = item" by (rule base_name_no_separator)
next
  show "group_items_by_base_name items =
     map (\<lambda>b. (b, filter (\<lambda>x. base_name x = b) items)) (first_seen (map base_name items))"
    by (rule group_items_by_base_name_eq)
next
  show "group_items_by_base_name
     [''REDHAMMER STANDARD - HEADGEAR'', ''REDHAMMER STANDARD - UNIFORM'', ''LONE WOLF'']
     = [(''REDHAMMER STANDARD'',
         [''REDHAMMER STANDARD - HEADGEAR'', ''REDHAMMER STANDARD - UNIFORM'']),
        (''LONE WOLF'', [''LONE WOLF''])]"
    by code_simp
qed

theorem group_items_by_base_name_correct_witness:
  "(\<exists>before after. ''REDHAMMER STANDARD - HEADGEAR'' = before @ '' - '' @ after) \<and>
   base_name ''REDHAMMER STANDARD - HEADGEAR'' = ''REDHAMMER STANDARD'' \<and>
   (\<exists>rest. ''REDHAMMER STANDARD - HEADGEAR''
            = base_name ''REDHAMMER STANDARD - HEADGEAR'' @ '' - '' @ rest) \<and>
   \<not> (\<exists>before after. ''LONE WOLF'' = before @ '' - '' @ after) \<and>
   base_name ''LONE WOLF'' = ''LONE WOLF''"
proof -
  have "''REDHAMMER STANDARD - HEADGEAR'' = ''REDHAMMER STANDARD'' @ '' - '' @ ''HEADGEAR''"
    by simp
  then have h1: "\<exists>before after. ''REDHAMMER STANDARD - HEADGEAR'' = before @ '' - '' @ after"
    by blast
  have "\<not> contains ''LONE WOLF'' '' - ''" by code_simp
  then have h2: "\<not> (\<exists>before after. ''LONE WOLF'' = before @ '' - '' @ after)"
    by (simp add: contains_iff)
  have b: "base_name ''REDHAMMER STANDARD - HEADGEAR'' = ''REDHAMMER STANDARD''" by code_simp
  from group_items_by_base_name_correct [of "''REDHAMMER STANDARD - HEADGEAR''"] h1
  have r1: "\<exists>rest. ''REDHAMMER STANDARD - HEADGEAR''
            = base_name ''REDHAMMER STANDARD - HEADGEAR'' @ '' - '' @ rest" by blast
  from group_items_by_base_name_correct [of "''LONE WOLF''"] h2
  have r2: "base_name ''LONE WOLF'' = ''LONE WOLF''" by blast
  from h1 h2 b r1 r2 show ?thesis by blast
qed

section \<open>Properties of the run\<close>

lemma tagged_Nil [simp]: "tagged [] = []"
  by (simp add: tagged_def)

lemma tagged_Cons [simp]: "tagged ((k, l) # d) = map (Pair k) l @ tagged d"
  by (simp add: tagged_def)

lemma tagged_append [simp]: "tagged (d @ e) = tagged d @ tagged e"
  by (simp add: tagged_def)

lemma length_tagged: "length (tagged d) = total_len d"
  by (induction d) (auto simp: total_len_def)

lemma append_item_present:
  assumes "k \<in> set (map fst d)"
  shows "\<exists>d'. append_item k x d = Some d' \<and> map fst d' = map fst d \<and>
              mset (tagged d') = mset (tagged d) + {#(k, x)#}"
  using assms
proof (induction d)
  case Nil
  then show ?case by simp
next
  case (Cons p d)
  obtain k' l where p: "p = (k', l)" by (cases p)
  show ?case
  proof (cases "k' = k")
    case True
    then show ?thesis using p by (simp add: append_item_def)
  next
    case False
    then have "k \<in> set (map fst d)" using Cons.prems p by auto
    then obtain d' where d': "append_item k x d = Some d'" "map fst d' = map fst d"
      "mset (tagged d') = mset (tagged d) + {#(k, x)#}" using Cons.IH by blast
    then have "append_item k x (p # d) = Some (p # d')"
      using False p by (auto simp: append_item_def split: option.splits)
    then show ?thesis using d' p by simp
  qed
qed

lemma setitem_fresh:
  "k \<notin> set (map fst d) \<Longrightarrow> tagged (setitem k [] d) = tagged d"
  by (induction d) (auto simp: setitem_def)

lemma keys_setitem:
  "set (map fst (setitem k v d)) = insert k (set (map fst d))"
  by (induction d) (auto simp: setitem_def)

lemma same_keys_refl [simp]: "same_keys s s"
  by (simp add: same_keys_def)

lemma same_keys_trans: "same_keys s t \<Longrightarrow> same_keys t u \<Longrightarrow> same_keys s u"
  by (simp add: same_keys_def)

lemma outside_try_Returned [simp]: "outside_try (Returned u) rest = rest"
  by (simp add: outside_try_def)

lemma outside_try_Interrupted [simp]: "outside_try Interrupted rest = Inl KeyboardInterrupt"
  by (simp add: outside_try_def)

lemma outside_try_Raised [simp]: "outside_try Raised rest = Inl OtherException"
  by (simp add: outside_try_def)

lemma record_missing_effect:
  assumes "category \<in> set (map fst (missing_items s))"
  shows "\<exists>s'. record_missing category item s = Inr (Next s') \<and> same_keys s s' \<and>
           owned_items s' = owned_items s \<and>
           mset (tagged (missing_items s')) = mset (tagged (missing_items s)) + {#(category, item)#}"
proof -
  obtain m where m: "append_item category item (missing_items s) = Some m"
    "map fst m = map fst (missing_items s)"
    "mset (tagged m) = mset (tagged (missing_items s)) + {#(category, item)#}"
    using append_item_present [OF assms] by blast
  then show ?thesis by (simp add: record_missing_def same_keys_def)
qed

lemma check_item_effect:
  assumes "category \<in> set (map fst (owned_items s))"
    and "category \<in> set (map fst (missing_items s))"
    and h: "handler n = Returned ()"
  shows "\<exists>st. check_item resolver sleep handler category item n s = Inr st \<and>
           same_keys s (state_of st) \<and>
           (case resolver n item of
              Interrupted \<Rightarrow> st = Stop s
            | Raised \<Rightarrow>
                \<not> stopped st \<and> owned_items (state_of st) = owned_items s \<and>
                mset (tagged (missing_items (state_of st)))
                  = mset (tagged (missing_items s)) + {#(category, item)#}
            | Returned owned \<Rightarrow>
                stopped st = sleep n \<and>
                mset (tagged (owned_items (state_of st)))
                  = mset (tagged (owned_items s)) + (if owned then {#(category, item)#} else {#}) \<and>
                mset (tagged (missing_items (state_of st)))
                  = mset (tagged (missing_items s)) + (if owned then {#} else {#(category, item)#}))"
proof (cases "resolver n item")
  case Interrupted
  then show ?thesis by (simp add: check_item_def h)
next
  case Raised
  then show ?thesis
    using record_missing_effect [OF assms(2), of item] by (auto simp: check_item_def h)
next
  case (Returned owned)
  show ?thesis
  proof (cases owned)
    case True
    obtain d where d: "append_item category item (owned_items s) = Some d"
      "map fst d = map fst (owned_items s)"
      "mset (tagged d) = mset (tagged (owned_items s)) + {#(category, item)#}"
      using append_item_present [OF assms(1)] by blast
    then show ?thesis using Returned True
      by (simp add: check_item_def same_keys_def h)
  next
    case False
    obtain d where d: "append_item category item (missing_items s) = Some d"
      "map fst d = map fst (missing_items s)"
      "mset (tagged d) = mset (tagged (missing_items s)) + {#(category, item)#}"
      using append_item_present [OF assms(2)] by blast
    then show ?thesis using Returned False
      by (simp add: check_item_def same_keys_def h)
  qed
qed

lemma check_items_classify:
  assumes "category \<in> set (map fst (owned_items s))"
    and "category \<in> set (map fst (missing_items s))"
    and qp: "\<forall>n. progress n = Returned ()"
    and qh: "\<forall>n. handler n = Returned ()"
  shows "\<exists>checked' st. check_items resolver sleep progress handler category items checked s = Inr (checked', st) \<and>
           same_keys s (state_of st) \<and>
           mset (tagged (owned_items (state_of st)))
             = mset (tagged (owned_items s))
               + mset (fst (classify resolver sleep checked (map (Pair category) items))) \<and>
           mset (tagged (missing_items (state_of st)))
             = mset (tagged (missing_items s))
               + mset (fst (snd (classify resolver sleep checked (map (Pair category) items)))) \<and>
           stopped st = snd (snd (classify resolver sleep checked (map (Pair category) items))) \<and>
           (\<not> stopped st \<longrightarrow> checked' = checked + length items)"
  using assms(1,2)
proof (induction items arbitrary: checked s)
  case Nil
  then show ?case by simp
next
  case (Cons item items)
  let ?r = "resolver (Suc checked) item"
  obtain st where st: "check_item resolver sleep handler category item (Suc checked) s = Inr st"
    and sk: "same_keys s (state_of st)"
    and eff: "case ?r of
              Interrupted \<Rightarrow> st = Stop s
            | Raised \<Rightarrow>
                \<not> stopped st \<and> owned_items (state_of st) = owned_items s \<and>
                mset (tagged (missing_items (state_of st)))
                  = mset (tagged (missing_items s)) + {#(category, item)#}
            | Returned owned \<Rightarrow>
                stopped st = sleep (Suc checked) \<and>
                mset (tagged (owned_items (state_of st)))
                  = mset (tagged (owned_items s)) + (if owned then {#(category, item)#} else {#}) \<and>
                mset (tagged (missing_items (state_of st)))
                  = mset (tagged (missing_items s)) + (if owned then {#} else {#(category, item)#})"
    using check_item_effect [OF Cons.prems, of handler "Suc checked" resolver sleep item] qh
    by blast
  show ?case
  proof (cases st)
    case (Stop s')
    then have run: "check_items resolver sleep progress handler category (item # items) checked s
                      = Inr (Suc checked, Stop s')"
      using st qp by simp
    from Stop eff have "?r = Interrupted \<and> s' = s \<or> (\<exists>b. ?r = Returned b \<and> sleep (Suc checked))"
      by (cases ?r) auto
    then show ?thesis using run sk eff Stop by (auto split: if_splits)
  next
    case (Next s')
    then have k: "category \<in> set (map fst (owned_items s'))"
      "category \<in> set (map fst (missing_items s'))"
      using sk Cons.prems by (auto simp: same_keys_def)
    let ?c = "classify resolver sleep (Suc checked) (map (Pair category) items)"
    obtain checked' st' where
      r: "check_items resolver sleep progress handler category items (Suc checked) s' = Inr (checked', st')"
      and sk': "same_keys s' (state_of st')"
      and o: "mset (tagged (owned_items (state_of st'))) = mset (tagged (owned_items s')) + mset (fst ?c)"
      and m: "mset (tagged (missing_items (state_of st')))
                = mset (tagged (missing_items s')) + mset (fst (snd ?c))"
      and stp: "stopped st' = snd (snd ?c)"
      and cnt: "\<not> stopped st' \<longrightarrow> checked' = Suc checked + length items"
      using Cons.IH [OF k, of "Suc checked"] by blast
    have sk2: "same_keys s (state_of st')"
      using sk sk' Next by (auto intro: same_keys_trans)
    have run: "check_items resolver sleep progress handler category (item # items) checked s
                 = Inr (checked', st')"
      using st Next r qp by simp
    show ?thesis
    proof (cases ?r)
      case Interrupted
      then show ?thesis using eff Next by simp
    next
      case Raised
      then show ?thesis using eff Next o m stp cnt sk2 run
        by (simp add: split_beta)
    next
      case (Returned b)
      then have "\<not> sleep (Suc checked)" using eff Next by simp
      then show ?thesis using Returned eff Next o m stp cnt sk2 run
        by (cases b) (simp_all add: split_beta)
    qed
  qed
qed

lemma classify_append:
  "classify resolver sleep checked (ps @ qs) =
     (let r = classify resolver sleep checked ps in
      if snd (snd r) then r
      else (let r' = classify resolver sleep (checked + length ps) qs
            in (fst r @ fst r', fst (snd r) @ fst (snd r'), snd (snd r'))))"
proof (induction ps arbitrary: checked)
  case Nil
  then show ?case by (simp add: Let_def)
next
  case (Cons p ps)
  show ?case
    by (cases "resolver (Suc checked) (snd p)")
       (auto simp: Cons.IH Let_def split_beta prod_eq_iff)
qed

lemma check_categories_classify:
  assumes "distinct (map fst catalog)"
    and "set (map fst catalog) \<inter> set (map fst (owned_items s)) = {}"
    and "set (map fst catalog) \<inter> set (map fst (missing_items s)) = {}"
    and qp: "\<forall>n. progress n = Returned ()"
    and qh: "\<forall>n. handler n = Returned ()"
  shows "\<exists>s'. check_categories resolver sleep progress handler catalog checked s = Inr s' \<and>
           mset (tagged (owned_items s'))
             = mset (tagged (owned_items s))
               + mset (fst (classify resolver sleep checked (tagged catalog))) \<and>
           mset (tagged (missing_items s'))
             = mset (tagged (missing_items s))
               + mset (fst (snd (classify resolver sleep checked (tagged catalog))))"
  using assms(1,2,3)
proof (induction catalog arbitrary: checked s)
  case Nil
  then show ?case by (simp add: qp)
next
  case (Cons entry catalog)
  obtain category items where entry: "entry = (category, items)" by (cases entry)
  let ?s0 = "s\<lparr>owned_items := setitem category [] (owned_items s)\<rparr>"
  let ?s1 = "?s0\<lparr>missing_items := setitem category [] (missing_items ?s0)\<rparr>"
  have fresh: "category \<notin> set (map fst (owned_items s))"
    "category \<notin> set (map fst (missing_items s))"
    using Cons.prems entry by auto
  have t1: "tagged (owned_items ?s1) = tagged (owned_items s)"
    "tagged (missing_items ?s1) = tagged (missing_items s)"
    using fresh by (simp_all add: setitem_fresh)
  have k1: "set (map fst (owned_items ?s1)) = insert category (set (map fst (owned_items s)))"
    "set (map fst (missing_items ?s1)) = insert category (set (map fst (missing_items s)))"
    using keys_setitem [of category "[]" "owned_items s"]
      keys_setitem [of category "[]" "missing_items s"] by simp_all
  then have present: "category \<in> set (map fst (owned_items ?s1))"
    "category \<in> set (map fst (missing_items ?s1))" by simp_all
  let ?c = "classify resolver sleep checked (map (Pair category) items)"
  obtain checked' st where
    r: "check_items resolver sleep progress handler category items checked ?s1 = Inr (checked', st)"
    and sk: "same_keys ?s1 (state_of st)"
    and o: "mset (tagged (owned_items (state_of st))) = mset (tagged (owned_items ?s1)) + mset (fst ?c)"
    and m: "mset (tagged (missing_items (state_of st)))
              = mset (tagged (missing_items ?s1)) + mset (fst (snd ?c))"
    and stp: "stopped st = snd (snd ?c)"
    and cnt: "\<not> stopped st \<longrightarrow> checked' = checked + length items"
    using check_items_classify [OF present qp qh, where resolver = resolver and sleep = sleep
        and items = items and checked = checked] by blast
  show ?case
  proof (cases st)
    case (Stop s')
    then have "check_categories resolver sleep progress handler (entry # catalog) checked s = Inr s'"
      using r entry by (simp add: Let_def)
    moreover have "classify resolver sleep checked (tagged (entry # catalog)) = ?c"
      using stp Stop entry by (simp add: classify_append Let_def)
    ultimately show ?thesis using o m t1 Stop by simp
  next
    case (Next s')
    have keys': "set (map fst (owned_items s')) = insert category (set (map fst (owned_items s)))"
      "set (map fst (missing_items s')) = insert category (set (map fst (missing_items s)))"
      using sk k1 Next by (simp_all add: same_keys_def)
    have d: "distinct (map fst catalog)" "category \<notin> set (map fst catalog)"
      using Cons.prems(1) entry by auto
    have disj: "set (map fst catalog) \<inter> set (map fst (owned_items s')) = {}"
      "set (map fst catalog) \<inter> set (map fst (missing_items s')) = {}"
      using Cons.prems(2,3) d(2) unfolding keys' by auto
    let ?c' = "classify resolver sleep checked' (tagged catalog)"
    obtain s'' where
      r': "check_categories resolver sleep progress handler catalog checked' s' = Inr s''"
      and o': "mset (tagged (owned_items s'')) = mset (tagged (owned_items s')) + mset (fst ?c')"
      and m': "mset (tagged (missing_items s''))
                 = mset (tagged (missing_items s')) + mset (fst (snd ?c'))"
      using Cons.IH [OF d(1) disj, where checked = checked'] by blast
    have run: "check_categories resolver sleep progress handler (entry # catalog) checked s = Inr s''"
      using r r' entry Next by (simp add: Let_def)
    have c': "checked' = checked + length items" using cnt Next by simp
    have "classify resolver sleep checked (tagged (entry # catalog))
            = (fst ?c @ fst ?c', fst (snd ?c) @ fst (snd ?c'), snd (snd ?c'))"
      using stp Next entry c' by (simp add: classify_append Let_def)
    then show ?thesis using run o m o' m' t1 Next by simp
  qed
qed

lemma find_missing_items_classify:
  assumes "distinct (map fst catalog)"
    and qp: "\<forall>n. progress n = Returned ()"
    and qh: "\<forall>n. handler n = Returned ()"
  shows "\<exists>s'. find_missing_items resolver sleep progress handler catalog init_checker = Inr s' \<and>
           mset (tagged (owned_items s')) = mset (fst (classify resolver sleep 0 (tagged catalog))) \<and>
           mset (tagged (missing_items s'))
             = mset (fst (snd (classify resolver sleep 0 (tagged catalog))))"
proof -
  let ?s = "init_checker\<lparr>celebration_items := catalog\<rparr>"
  have "set (map fst catalog) \<inter> set (map fst (owned_items ?s)) = {}"
    "set (map fst catalog) \<inter> set (map fst (missing_items ?s)) = {}"
    by (simp_all add: init_checker_def)
  from check_categories_classify [OF assms(1) this qp qh, where resolver = resolver
      and sleep = sleep and checked = 0]
  show ?thesis by (simp add: find_missing_items_def init_checker_def)
qed

lemma classify_shift:
  "classify resolver sleep (Suc c) ps = classify (\<lambda>n. resolver (Suc n)) (\<lambda>n. sleep (Suc n)) c ps"
  by (induction ps arbitrary: c) (auto split: outcome.splits)

lemma undisturbed_Suc:
  "undisturbed resolver sleep (x # xs) (Suc i)
     = undisturbed (\<lambda>n. resolver (Suc n)) (\<lambda>n. sleep (Suc n)) xs i"
  by (simp add: undisturbed_def)

lemma classify_undisturbed:
  assumes "undisturbed resolver sleep (snd p # xs) 0"
  shows "classify resolver sleep 0 (p # ps) =
           (let r = classify (\<lambda>n. resolver (Suc n)) (\<lambda>n. sleep (Suc n)) 0 ps
            in if resolver (Suc 0) (snd p) = Returned True
               then (p # fst r, fst (snd r), snd (snd r))
               else (fst r, p # fst (snd r), snd (snd r)))"
  using assms
  by (cases "resolver (Suc 0) (snd p)")
     (auto simp: undisturbed_def classify_shift Let_def split_beta)

lemma cancelled_after_Cons:
  assumes "cancelled_after resolver sleep (x # xs) k"
    and "undisturbed resolver sleep (x # xs) 0"
  shows "0 < k \<and> cancelled_after (\<lambda>n. resolver (Suc n)) (\<lambda>n. sleep (Suc n)) xs (k - 1)"
proof (cases k)
  case 0
  then show ?thesis using assms by (auto simp: cancelled_after_def undisturbed_def)
next
  case (Suc j)
  show ?thesis
  proof (cases j)
    case 0
    then show ?thesis using assms Suc
      by (auto simp: cancelled_after_def undisturbed_def)
  next
    case (Suc m)
    have a: "\<forall>i<j. undisturbed resolver sleep (x # xs) i"
      using assms(1) \<open>k = Suc j\<close> by (simp add: cancelled_after_def)
    have "\<forall>i<m. undisturbed (\<lambda>n. resolver (Suc n)) (\<lambda>n. sleep (Suc n)) xs i"
    proof (intro allI impI)
      fix i assume "i < m"
      then have "Suc i < j" using Suc by simp
      then show "undisturbed (\<lambda>n. resolver (Suc n)) (\<lambda>n. sleep (Suc n)) xs i"
        using a undisturbed_Suc by blast
    qed
    then show ?thesis using assms(1) Suc \<open>k = Suc j\<close>
      by (auto simp: cancelled_after_def undisturbed_Suc)
  qed
qed

lemma classify_cancelled_after:
  assumes "cancelled_after resolver sleep (map snd ps) k"
  shows "length (fst (classify resolver sleep 0 ps))
           + length (fst (snd (classify resolver sleep 0 ps))) = k \<and>
         snd (snd (classify resolver sleep 0 ps))"
  using assms
proof (induction ps arbitrary: resolver sleep k)
  case Nil
  then show ?case by (auto simp: cancelled_after_def)
next
  case (Cons p ps)
  show ?case
  proof (cases "undisturbed resolver sleep (map snd (p # ps)) 0")
    case True
    then have u: "undisturbed resolver sleep (snd p # map snd ps) 0" by simp
    have k: "0 < k"
      and c: "cancelled_after (\<lambda>n. resolver (Suc n)) (\<lambda>n. sleep (Suc n)) (map snd ps) (k - 1)"
      using cancelled_after_Cons [of resolver sleep "snd p" "map snd ps" k] Cons.prems u
      by simp_all
    from Cons.IH [OF c] k show ?thesis
      unfolding classify_undisturbed [OF u, of ps] by (simp add: Let_def)
  next
    case False
    then have nu: "\<not> undisturbed resolver sleep (snd p # map snd ps) 0" by simp
    have "k \<le> 1"
    proof (rule ccontr)
      assume "\<not> k \<le> 1"
      then have "0 < k - 1" by simp
      then have "undisturbed resolver sleep (map snd (p # ps)) 0"
        using Cons.prems by (simp add: cancelled_after_def)
      with False show False by simp
    qed
    then consider "k = 0" | "k = 1" by linarith
    then show ?thesis
    proof cases
      case 1
      then have "resolver (Suc 0) (snd p) = Interrupted"
        using Cons.prems by (simp add: cancelled_after_def)
      then show ?thesis using 1 by simp
    next
      case 2
      then have "(\<exists>owned. resolver (Suc 0) (snd p) = Returned owned) \<and> sleep (Suc 0)"
        using Cons.prems nu by (auto simp: cancelled_after_def)
      then show ?thesis using 2 by auto
    qed
  qed
qed

lemma classify_prefix:
  "mset (fst (classify resolver sleep c ps)) + mset (fst (snd (classify resolver sleep c ps)))
     = mset (take (length (fst (classify resolver sleep c ps))
                   + length (fst (snd (classify resolver sleep c ps)))) ps)"
  by (induction ps arbitrary: c) (auto simp: split_beta split: outcome.splits)

lemma total_len_mset: "total_len d = size (mset (tagged d))"
  by (simp add: length_tagged [symmetric])

lemma check_categories_total:
  assumes qp: "\<forall>n. progress n = Returned ()"
    and qh: "\<forall>n. handler n = Returned ()"
  shows "\<exists>s'. check_categories resolver sleep progress handler catalog checked s = Inr s'"
proof (induction catalog arbitrary: checked s)
  case Nil
  then show ?case by (simp add: qp)
next
  case (Cons entry catalog)
  obtain category items where entry: "entry = (category, items)" by (cases entry)
  let ?s0 = "s\<lparr>owned_items := setitem category [] (owned_items s)\<rparr>"
  let ?s1 = "?s0\<lparr>missing_items := setitem category [] (missing_items ?s0)\<rparr>"
  have present: "category \<in> set (map fst (owned_items ?s1))"
    "category \<in> set (map fst (missing_items ?s1))"
    using keys_setitem [of category "[]" "owned_items s"]
      keys_setitem [of category "[]" "missing_items s"] by simp_all
  obtain checked' st where
    r: "check_items resolver sleep progress handler category items checked ?s1 = Inr (checked', st)"
    using check_items_classify [OF present qp qh, where resolver = resolver and sleep = sleep
        and items = items and checked = checked] by blast
  show ?case
  proof (cases st)
    case (Stop s')
    then show ?thesis using r entry by (simp add: Let_def)
  next
    case (Next s')
    then show ?thesis using r entry Cons.IH [of checked' s'] by (simp add: Let_def)
  qed
qed

lemma check_items_raised:
  assumes "resolver (Suc checked) item = Raised"
    and "map_of (missing_items s) category = Some l"
    and "progress (Suc checked) = Returned ()"
    and "handler (Suc checked) = Returned ()"
  shows "check_items resolver sleep progress handler category (item # items) checked s
           = check_items resolver sleep progress handler category items (Suc checked)
               (s\<lparr>missing_items := AList.update category (l @ [item]) (missing_items s)\<rparr>)"
  using assms by (simp add: check_item_def record_missing_def append_item_def)

lemma classify_raised_missing:
  assumes "i < length ps"
    and "\<forall>j<i. undisturbed resolver sleep (map snd ps) j"
    and "resolver (Suc i) (snd (ps ! i)) = Raised"
  shows "ps ! i \<in> set (fst (snd (classify resolver sleep 0 ps)))"
  using assms
proof (induction ps arbitrary: resolver sleep i)
  case Nil
  then show ?case by simp
next
  case (Cons p ps)
  show ?case
  proof (cases i)
    case 0
    then show ?thesis using Cons.prems by (simp add: split_beta)
  next
    case (Suc m)
    have u: "undisturbed resolver sleep (snd p # map snd ps) 0"
      using Cons.prems(2) Suc by simp
    have "\<forall>j<m. undisturbed (\<lambda>n. resolver (Suc n)) (\<lambda>n. sleep (Suc n)) (map snd ps) j"
    proof (intro allI impI)
      fix j assume "j < m"
      then have "undisturbed resolver sleep (map snd (p # ps)) (Suc j)"
        using Cons.prems(2) Suc by simp
      then show "undisturbed (\<lambda>n. resolver (Suc n)) (\<lambda>n. sleep (Suc n)) (map snd ps) j"
        by (simp add: undisturbed_Suc)
    qed
    moreover have "m < length ps" using Cons.prems(1) Suc by simp
    moreover have "resolver (Suc (Suc m)) (snd (ps ! m)) = Raised"
      using Cons.prems(3) Suc by simp
    ultimately have "ps ! m \<in> set (fst (snd (classify (\<lambda>n. resolver (Suc n))
                       (\<lambda>n. sleep (Suc n)) 0 ps)))"
      by (intro Cons.IH) auto
    then show ?thesis unfolding classify_undisturbed [OF u, of ps] using Suc
      by (simp add: Let_def)
  qed
qed

lemma classify_uninterrupted:
  assumes "\<forall>n x. resolver n x \<noteq> Interrupted" and "\<forall>n. \<not> sleep n"
  shows "mset (fst (classify resolver sleep c ps)) + mset (fst (snd (classify resolver sleep c ps)))
           = mset ps"
  using assms by (induction ps arbitrary: c) (auto simp: split_beta split: outcome.splits)

text \<open>
  A cancellation that arrives inside a \<^verbatim>\<open>try\<close> block is handled: when every statement
  outside the \<^verbatim>\<open>try\<close> blocks completes, the categories of the catalog are distinct, as
  the keys of a dict are, and the \<open>KeyboardInterrupt\<close> is raised in the pause after item
  \<open>k\<close> or in the lookup of item \<open>k + 1\<close>, then \<^verbatim>\<open>find_missing_items\<close>, started on a
  new checker, returns with no error; the lengths of the owned and missing lists, summed
  over all categories, give \<open>k\<close>; and the items in these lists, each under its
  category, are the first \<open>k\<close> items of the catalog and no other.
\<close>

lemma cancellation_inside_try_keeps_prefix:
  assumes "distinct (map fst catalog)"
    and "cancelled_after resolver sleep (map snd (tagged catalog)) k"
    and qp: "\<forall>n. progress n = Returned ()"
    and qh: "\<forall>n. handler n = Returned ()"
  shows "\<exists>s'. find_missing_items resolver sleep progress handler catalog init_checker = Inr s' \<and>
           total_len (owned_items s') + total_len (missing_items s') = k \<and>
           mset (tagged (owned_items s')) + mset (tagged (missing_items s'))
             = mset (take k (tagged catalog))"
proof -
  let ?c = "classify resolver sleep 0 (tagged catalog)"
  obtain s' where run: "find_missing_items resolver sleep progress handler catalog init_checker = Inr s'"
    and o: "mset (tagged (owned_items s')) = mset (fst ?c)"
    and m: "mset (tagged (missing_items s')) = mset (fst (snd ?c))"
    using find_missing_items_classify [OF assms(1) qp qh, where resolver = resolver
        and sleep = sleep] by blast
  have k: "length (fst ?c) + length (fst (snd ?c)) = k"
    using classify_cancelled_after [OF assms(2)] by simp
  have "total_len (owned_items s') + total_len (missing_items s') = k"
    using o m k by (simp add: total_len_mset)
  moreover have "mset (tagged (owned_items s')) + mset (tagged (missing_items s'))
                   = mset (take k (tagged catalog))"
    using classify_prefix [of resolver sleep 0 "tagged catalog"] o m k by simp
  ultimately show ?thesis using run by blast
qed

lemma cancellation_in_pause_example:
  "cancelled_after demo_resolver demo_sleep (map snd (tagged demo_catalog)) 3 \<and>
   find_missing_items demo_resolver demo_sleep quiet quiet demo_catalog init_checker
     = Inr \<lparr>celebration_items = demo_catalog,
            owned_items = [(''HEADGEAR'', [''Ace Hat''])],
            missing_items = [(''HEADGEAR'', [''Ash Cap'', ''Fuze Helm''])]\<rparr>"
proof -
  have len: "length (tagged demo_catalog) = 10" by code_simp
  have u0: "undisturbed demo_resolver demo_sleep (map snd (tagged demo_catalog)) 0" by code_simp
  have u1: "undisturbed demo_resolver demo_sleep (map snd (tagged demo_catalog)) 1" by code_simp
  have r3: "demo_resolver 3 (map snd (tagged demo_catalog) ! (3 - 1)) = Returned False"
    by code_simp
  have s3: "demo_sleep 3" by code_simp
  have "\<forall>i<3 - 1. undisturbed demo_resolver demo_sleep (map snd (tagged demo_catalog)) i"
    using u0 u1 by (auto simp: less_Suc_eq numeral_2_eq_2 numeral_3_eq_3)
  then have h2: "cancelled_after demo_resolver demo_sleep (map snd (tagged demo_catalog)) 3"
    using r3 s3 len by (auto simp: cancelled_after_def)
  have run: "find_missing_items demo_resolver demo_sleep quiet quiet demo_catalog init_checker
     = Inr \<lparr>celebration_items = demo_catalog,
            owned_items = [(''HEADGEAR'', [''Ace Hat''])],
            missing_items = [(''HEADGEAR'', [''Ash Cap'', ''Fuze Helm''])]\<rparr>"
    by code_simp
  from h2 run show ?thesis by blast
qed

text \<open>
  Claim C6 at a run over the ten items of \<open>demo_catalog\<close> in which the cancellation
  arrives at the item boundary after three items: the lookups and pauses of the first
  three items complete, the statements before their \<^verbatim>\<open>try\<close> blocks complete, and the
  \<open>KeyboardInterrupt\<close> is raised while the progress line of the fourth item is printed.
  That statement is in no \<^verbatim>\<open>try\<close> block, so \<^verbatim>\<open>find_missing_items\<close> does not return:
  the \<open>KeyboardInterrupt\<close> leaves it, where the claim has the run return the state with
  three classified items. The three items had been classified when it was raised.
\<close>

theorem cancellation_at_item_boundary_raises:
  "demo_resolver 1 ''Ace Hat'' = Returned True \<and>
   demo_resolver 2 ''Ash Cap'' = Raised \<and>
   demo_resolver 3 ''Fuze Helm'' = Returned False \<and>
   \<not> never_interrupted 1 \<and> \<not> never_interrupted 3 \<and>
   interrupted_before_fourth 1 = Returned () \<and>
   interrupted_before_fourth 2 = Returned () \<and>
   interrupted_before_fourth 3 = Returned () \<and>
   interrupted_before_fourth 4 = Interrupted \<and>
   check_items demo_resolver never_interrupted interrupted_before_fourth quiet ''HEADGEAR''
     [''Ace Hat'', ''Ash Cap'', ''Fuze Helm''] 0
     \<lparr>celebration_items = demo_catalog,
      owned_items = [(''HEADGEAR'', [])], missing_items = [(''HEADGEAR'', [])]\<rparr>
     = Inr (3, Next \<lparr>celebration_items = demo_catalog,
                     owned_items = [(''HEADGEAR'', [''Ace Hat''])],
                     missing_items = [(''HEADGEAR'', [''Ash Cap'', ''Fuze Helm''])]\<rparr>) \<and>
   find_missing_items demo_resolver never_interrupted interrupted_before_fourth quiet
     demo_catalog init_checker = Inl KeyboardInterrupt"
  by code_simp

text \<open>
  Claim C7. In all of it the statements outside the \<^verbatim>\<open>try\<close> blocks (the progress
  lines and the lines printed by the handlers) complete. \<^verbatim>\<open>find_missing_items\<close>
  returns a checker whatever the calls of the resolver do: no error leaves it. When the
  resolver raises an exception for an item, the item is appended to the missing list of
  its category and the loop goes on with the remaining items. In a run on a new checker
  over a catalog with distinct categories, an item that the run reaches and for which
  the resolver raises is in the missing list of its category at the end, and if no
  \<open>KeyboardInterrupt\<close> is raised every item of the catalog is in an owned or a missing
  list at the end.
\<close>

theorem resolver_error_recorded_as_missing:
  "((\<forall>n. progress n = Returned ()) \<and> (\<forall>n. handler n = Returned ()) \<longrightarrow>
      (\<exists>s'. find_missing_items resolver sleep progress handler catalog s = Inr s')) \<and>
   (resolver (Suc checked) item = Raised \<and> map_of (missing_items s) category = Some l \<and>
    progress (Suc checked) = Returned () \<and> handler (Suc checked) = Returned () \<longrightarrow>
      check_items resolver sleep progress handler category (item # items) checked s
        = check_items resolver sleep progress handler category items (Suc checked)
            (s\<lparr>missing_items := AList.update category (l @ [item]) (missing_items s)\<rparr>)) \<and>
   ((\<forall>n. progress n = Returned ()) \<and> (\<forall>n. handler n = Returned ()) \<and>
    distinct (map fst catalog) \<and> i < length (tagged catalog) \<and>
    (\<forall>j<i. undisturbed resolver sleep (map snd (tagged catalog)) j) \<and>
    resolver (Suc i) (snd (tagged catalog ! i)) = Raised \<longrightarrow>
      (\<exists>s'. find_missing_items resolver sleep progress handler catalog init_checker = Inr s' \<and>
            tagged catalog ! i \<in> set (tagged (missing_items s')))) \<and>
   ((\<forall>n. progress n = Returned ()) \<and> (\<forall>n. handler n = Returned ()) \<and>
    distinct (map fst catalog) \<and> (\<forall>n x. resolver n x \<noteq> Interrupted) \<and> (\<forall>n. \<not> sleep n) \<longrightarrow>
      (\<exists>s'. find_missing_items resolver sleep progress handler catalog init_checker = Inr s' \<and>
            mset (tagged (owned_items s')) + mset (tagged (missing_items s'))
              = mset (tagged catalog)))"
proof (intro conjI impI)
  assume "(\<forall>n. progress n = Returned ()) \<and> (\<forall>n. handler n = Returned ())"
  then show "\<exists>s'. find_missing_items resolver sleep progress handler catalog s = Inr s'"
    unfolding find_missing_items_def using check_categories_total by blast
next
  assume "resolver (Suc checked) item = Raised \<and> map_of (missing_items s) category = Some l \<and>
    progress (Suc checked) = Returned () \<and> handler (Suc checked) = Returned ()"
  then show "check_items resolver sleep progress handler category (item # items) checked s
        = check_items resolver sleep progress handler category items (Suc checked)
            (s\<lparr>missing_items := AList.update category (l @ [item]) (missing_items s)\<rparr>)"
    using check_items_raised by blast
next
  assume a: "(\<forall>n. progress n = Returned ()) \<and> (\<forall>n. handler n = Returned ()) \<and>
    distinct (map fst catalog) \<and> i < length (tagged catalog) \<and>
    (\<forall>j<i. undisturbed resolver sleep (map snd (tagged catalog)) j) \<and>
    resolver (Suc i) (snd (tagged catalog ! i)) = Raised"
  let ?c = "classify resolver sleep 0 (tagged catalog)"
  obtain s' where run: "find_missing_items resolver sleep progress handler catalog init_checker = Inr s'"
    and m: "mset (tagged (missing_items s')) = mset (fst (snd ?c))"
    using find_missing_items_classify [where catalog = catalog and resolver = resolver
        and sleep = sleep and progress = progress and handler = handler] a by blast
  have "tagged catalog ! i \<in> set (fst (snd ?c))"
    using a by (intro classify_raised_missing) auto
  then have "tagged catalog ! i \<in> set (tagged (missing_items s'))"
    using m by (metis set_mset_mset)
  with run show "\<exists>s'. find_missing_items resolver sleep progress handler catalog init_checker = Inr s' \<and>
            tagged catalog ! i \<in> set (tagged (missing_items s'))" by blast
next
  assume a: "(\<forall>n. progress n = Returned ()) \<and> (\<forall>n. handler n = Returned ()) \<and>
    distinct (map fst catalog) \<and> (\<forall>n x. resolver n x \<noteq> Interrupted) \<and> (\<forall>n. \<not> sleep n)"
  let ?c = "classify resolver sleep 0 (tagged catalog)"
  obtain s' where run: "find_missing_items resolver sleep progress handler catalog init_checker = Inr s'"
    and o: "mset (tagged (owned_items s')) = mset (fst ?c)"
    and m: "mset (tagged (missing_items s')) = mset (fst (snd ?c))"
    using find_missing_items_classify [where catalog = catalog and resolver = resolver
        and sleep = sleep and progress = progress and handler = handler] a by blast
  have "mset (fst ?c) + mset (fst (snd ?c)) = mset (tagged catalog)"
    using a by (intro classify_uninterrupted) auto
  with run o m
  show "\<exists>s'. find_missing_items resolver sleep progress handler catalog init_checker = Inr s' \<and>
            mset (tagged (owned_items s')) + mset (tagged (missing_items s'))
              = mset (tagged catalog)" by simp
qed

theorem resolver_error_recorded_as_missing_witness:
  "demo_resolver (Suc 1) ''Ash Cap'' = Raised \<and>
   map_of (missing_items \<lparr>celebration_items = demo_catalog,
                          owned_items = [(''HEADGEAR'', [''Ace Hat''])],
                          missing_items = [(''HEADGEAR'', [])]\<rparr>) ''HEADGEAR'' = Some [] \<and>
   distinct (map fst demo_catalog) \<and> 1 < length (tagged demo_catalog) \<and>
   undisturbed demo_resolver never_interrupted (map snd (tagged demo_catalog)) 0 \<and>
   tagged demo_catalog ! 1 = (''HEADGEAR'', ''Ash Cap'') \<and>
   (\<forall>n x. demo_resolver n x \<noteq> Interrupted) \<and> (\<forall>n. \<not> never_interrupted n) \<and>
   (\<forall>n. quiet n = Returned ()) \<and>
   check_items demo_resolver never_interrupted quiet quiet ''HEADGEAR''
     [''Ash Cap'', ''Fuze Helm''] 1
     \<lparr>celebration_items = demo_catalog,
      owned_items = [(''HEADGEAR'', [''Ace Hat''])], missing_items = [(''HEADGEAR'', [])]\<rparr>
     = check_items demo_resolver never_interrupted quiet quiet ''HEADGEAR'' [''Fuze Helm''] (Suc 1)
         \<lparr>celebration_items = demo_catalog,
          owned_items = [(''HEADGEAR'', [''Ace Hat''])],
          missing_items = [(''HEADGEAR'', [''Ash Cap''])]\<rparr> \<and>
   find_missing_items demo_resolver never_interrupted quiet quiet demo_catalog init_checker
     = Inr \<lparr>celebration_items = demo_catalog,
            owned_items = [(''HEADGEAR'', [''Ace Hat'']), (''UNIFORMS'', []), (''CHARMS'', [])],
            missing_items =
              [(''HEADGEAR'', [''Ash Cap'', ''Fuze Helm'', ''Kapkan Hood'']),
               (''UNIFORMS'', [''Ace Suit'', ''Ash Vest'', ''Fuze Coat'']),
               (''CHARMS'', [''Lone Wolf'', ''Red Crow'', ''Black Ice''])]\<rparr> \<and>
   (\<exists>s'. find_missing_items demo_resolver never_interrupted quiet quiet demo_catalog init_checker = Inr s' \<and>
         (''HEADGEAR'', ''Ash Cap'') \<in> set (tagged (missing_items s')) \<and>
         mset (tagged (owned_items s')) + mset (tagged (missing_items s'))
           = mset (tagged demo_catalog))"
proof -
  let ?s = "\<lparr>celebration_items = demo_catalog,
             owned_items = [(''HEADGEAR'', [''Ace Hat''])],
             missing_items = [(''HEADGEAR'', [])]\<rparr>"
  have h1: "demo_resolver (Suc 1) ''Ash Cap'' = Raised" by code_simp
  have h2: "map_of (missing_items ?s) ''HEADGEAR'' = Some []" by simp
  have h3: "distinct (map fst demo_catalog)" by code_simp
  have h4: "1 < length (tagged demo_catalog)" by code_simp
  have h5: "undisturbed demo_resolver never_interrupted (map snd (tagged demo_catalog)) 0"
    by code_simp
  then have h5': "\<forall>j<1. undisturbed demo_resolver never_interrupted (map snd (tagged demo_catalog)) j"
    by simp
  have h6: "tagged demo_catalog ! 1 = (''HEADGEAR'', ''Ash Cap'')" by code_simp
  then have h6': "demo_resolver (Suc 1) (snd (tagged demo_catalog ! 1)) = Raised"
    using h1 by simp
  have h7: "\<forall>n x. demo_resolver n x \<noteq> Interrupted" by (simp add: demo_resolver_def)
  have h8: "\<forall>n. \<not> never_interrupted n" by (simp add: never_interrupted_def)
  have q: "\<forall>n. quiet n = Returned ()" by (simp add: quiet_def)
  have run: "find_missing_items demo_resolver never_interrupted quiet quiet demo_catalog init_checker
     = Inr \<lparr>celebration_items = demo_catalog,
            owned_items = [(''HEADGEAR'', [''Ace Hat'']), (''UNIFORMS'', []), (''CHARMS'', [])],
            missing_items =
              [(''HEADGEAR'', [''Ash Cap'', ''Fuze Helm'', ''Kapkan Hood'']),
               (''UNIFORMS'', [''Ace Suit'', ''Ash Vest'', ''Fuze Coat'']),
               (''CHARMS'', [''Lone Wolf'', ''Red Crow'', ''Black Ice''])]\<rparr>"
    by code_simp
  note t = resolver_error_recorded_as_missing
    [where resolver = demo_resolver and sleep = never_interrupted and progress = quiet
       and handler = quiet and catalog = demo_catalog and s = ?s and checked = 1
       and item = "''Ash Cap''" and category = "''HEADGEAR''" and l = "[]"
       and items = "[''Fuze Helm'']" and i = 1]
  from t q obtain s0 where
    s0: "find_missing_items demo_resolver never_interrupted quiet quiet demo_catalog ?s = Inr s0"
    by blast
  have upd: "?s\<lparr>missing_items := AList.update ''HEADGEAR'' ([] @ [''Ash Cap'']) (missing_items ?s)\<rparr>
      = \<lparr>celebration_items = demo_catalog,
         owned_items = [(''HEADGEAR'', [''Ace Hat''])],
         missing_items = [(''HEADGEAR'', [''Ash Cap''])]\<rparr>"
    by simp
  from t h1 h2 q have
    "check_items demo_resolver never_interrupted quiet quiet ''HEADGEAR''
       (''Ash Cap'' # [''Fuze Helm'']) 1 ?s
     = check_items demo_resolver never_interrupted quiet quiet ''HEADGEAR'' [''Fuze Helm''] (Suc 1)
         (?s\<lparr>missing_items := AList.update ''HEADGEAR'' ([] @ [''Ash Cap'']) (missing_items ?s)\<rparr>)"
    by blast
  then have step:
    "check_items demo_resolver never_interrupted quiet quiet ''HEADGEAR''
       [''Ash Cap'', ''Fuze Helm''] 1 ?s
     = check_items demo_resolver never_interrupted quiet quiet ''HEADGEAR'' [''Fuze Helm''] (Suc 1)
         \<lparr>celebration_items = demo_catalog,
          owned_items = [(''HEADGEAR'', [''Ace Hat''])],
          missing_items = [(''HEADGEAR'', [''Ash Cap''])]\<rparr>"
    by (simp only: upd)
  from t q h3 h4 h5' h6' obtain s1 where
    s1: "find_missing_items demo_resolver never_interrupted quiet quiet demo_catalog init_checker = Inr s1"
      "tagged demo_catalog ! 1 \<in> set (tagged (missing_items s1))" by blast
  from t q h3 h7 h8 obtain s2 where
    s2: "find_missing_items demo_resolver never_interrupted quiet quiet demo_catalog init_checker = Inr s2"
      "mset (tagged (owned_items s2)) + mset (tagged (missing_items s2)) = mset (tagged demo_catalog)"
    by blast
  from s1 s2 have "s1 = s2" by simp
  with s1 s2 h6 have "\<exists>s'. find_missing_items demo_resolver never_interrupted quiet quiet demo_catalog init_checker = Inr s' \<and>
         (''HEADGEAR'', ''Ash Cap'') \<in> set (tagged (missing_items s')) \<and>
         mset (tagged (owned_items s')) + mset (tagged (missing_items s'))
           = mset (tagged demo_catalog)" by auto
  with h1 h2 h3 h4 h5 h6 h7 h8 q step run show ?thesis by blast
qed

section \<open>Properties of the rounding to binary64\<close>

text \<open>
  For \<open>x > 0\<close> the exponent is the right one, the significand of \<open>to_double x\<close> has 53
  binary digits, and no number with that exponent and an integer significand is nearer
  to \<open>x\<close>.
\<close>

lemma bit_length_bounds:
  "0 < n \<Longrightarrow> 2 ^ (bit_length n - 1) \<le> n \<and> n < 2 ^ bit_length n"
proof (induction n rule: bit_length.induct)
  case (1 n)
  show ?case
  proof (cases "n div 2 = 0")
    case True
    then have "n = Suc 0" using "1.prems" by (simp add: div_eq_0_iff)
    moreover have "bit_length (Suc 0) = Suc 0"
      by (simp add: bit_length.simps [of "Suc 0"] bit_length.simps [of 0])
    ultimately show ?thesis by simp
  next
    case False
    then have pos: "0 < n div 2" by simp
    have IH: "2 ^ (bit_length (n div 2) - 1) \<le> n div 2 \<and> n div 2 < 2 ^ bit_length (n div 2)"
      using "1.IH" "1.prems" pos by simp
    have b: "bit_length n = Suc (bit_length (n div 2))"
      using "1.prems" by (subst bit_length.simps) simp
    have bpos: "0 < bit_length (n div 2)"
      using pos by (subst bit_length.simps) simp
    then obtain k where k: "bit_length (n div 2) = Suc k" by (cases "bit_length (n div 2)") auto
    have "2 * 2 ^ k \<le> 2 * (n div 2)" using IH k by simp
    also have "\<dots> \<le> n" by simp
    finally have lo: "2 ^ (bit_length n - 1) \<le> n" using b k by simp
    have "n < 2 * (n div 2) + 2" by presburger
    also have "\<dots> \<le> 2 * 2 ^ bit_length (n div 2)" using IH by simp
    finally have hi: "n < 2 ^ bit_length n" using b by simp
    from lo hi show ?thesis by simp
  qed
qed

lemma round_half_even_error: "\<bar>of_int (round_half_even x) - x\<bar> \<le> 1 / 2"
proof -
  have "of_int \<lfloor>x\<rfloor> \<le> x" "x < of_int \<lfloor>x\<rfloor> + 1" by linarith+
  then show ?thesis by (auto simp: round_half_even_def Let_def abs_le_iff)
qed


lemma bit_length_pos: "0 < n \<Longrightarrow> 0 < bit_length n"
  by (subst bit_length.simps) simp

lemma floor_log2_bounds:
  assumes "0 < x"
  shows "2 powi floor_log2 x \<le> x \<and> x < 2 powi (floor_log2 x + 1)"
proof (cases "1 \<le> x")
  case True
  let ?n = "nat \<lfloor>x\<rfloor>"
  have n: "0 < ?n" using True by simp
  have e: "floor_log2 x = int (bit_length ?n - 1)"
    using True bit_length_bounds [OF n]
    by (cases "bit_length ?n") (auto simp: floor_log2_def)
  have b: "2 ^ (bit_length ?n - 1) \<le> ?n" "?n < 2 ^ bit_length ?n"
    using bit_length_bounds [OF n] by simp_all
  have bp: "0 < bit_length ?n" using n by (rule bit_length_pos)
  have "(2::rat) ^ (bit_length ?n - 1) = of_nat (2 ^ (bit_length ?n - 1))" by simp
  also have "\<dots> \<le> of_nat ?n" using b(1) of_nat_le_iff by blast
  also have "\<dots> \<le> x" using True by (simp add: of_nat_floor)
  finally have lo: "2 powi floor_log2 x \<le> x" unfolding e by (simp add: power_int_def)
  have "Suc ?n \<le> 2 ^ bit_length ?n" using b(2) by (rule Suc_leI)
  then have "(of_nat (Suc ?n) :: rat) \<le> of_nat (2 ^ bit_length ?n)" using of_nat_le_iff by blast
  moreover have "x < of_nat (Suc ?n)" using True by (simp add: of_nat_floor) linarith
  ultimately have "x < 2 ^ bit_length ?n" by simp
  moreover have "floor_log2 x + 1 = int (bit_length ?n)" using e bp by simp
  ultimately have hi: "x < 2 powi (floor_log2 x + 1)" by (simp add: power_int_def)
  from lo hi show ?thesis by simp
next
  case False
  then have x1: "x < 1" by simp
  let ?c = "\<lceil>1 / x\<rceil>"
  let ?m = "nat ?c - 1"
  have inv: "1 < 1 / x" using assms x1 by simp
  then have c2: "2 \<le> ?c" by linarith
  then have m: "0 < ?m" by simp
  have "int (nat ?c) = ?c" using c2 by (intro int_nat_eq [THEN trans]) auto
  moreover have "1 \<le> nat ?c" using c2 by linarith
  ultimately have mc: "int ?m = ?c - 1" by (simp add: of_nat_diff del: int_nat_eq)
  have b: "2 ^ (bit_length ?m - 1) \<le> ?m" "?m < 2 ^ bit_length ?m"
    using bit_length_bounds [OF m] by simp_all
  have bp: "0 < bit_length ?m" using m by (rule bit_length_pos)
  have e: "floor_log2 x = - int (bit_length ?m)" using False by (simp add: floor_log2_def)
  have A: "(of_int ?c :: rat) \<le> 2 ^ bit_length ?m"
  proof -
    have "Suc ?m \<le> 2 ^ bit_length ?m" using b(2) by (rule Suc_leI)
    then have le: "int (Suc ?m) \<le> int (2 ^ bit_length ?m)" using of_nat_le_iff by blast
    have "int (Suc ?m) = ?c" using mc by linarith
    with le have "?c \<le> int (2 ^ bit_length ?m)" by (simp only:)
    then have "?c \<le> 2 ^ bit_length ?m" by (simp only: of_nat_power of_nat_numeral)
    then have "(of_int ?c :: rat) \<le> of_int (2 ^ bit_length ?m)" using of_int_le_iff by blast
    then show ?thesis by (simp only: of_int_power of_int_numeral)
  qed
  have B: "1 / x \<le> of_int ?c" by (rule le_of_int_ceiling)
  from B A have "1 / x \<le> 2 ^ bit_length ?m" by (rule order_trans)
  then have "1 \<le> 2 ^ bit_length ?m * x" using assms by (simp add: field_simps)
  then have "1 / 2 ^ bit_length ?m \<le> x" by (simp add: field_simps)
  then have lo: "2 powi floor_log2 x \<le> x"
    unfolding e by (simp add: power_int_minus field_simps)
  have C: "(2::rat) ^ (bit_length ?m - 1) \<le> of_int (?c - 1)"
  proof -
    have "int (2 ^ (bit_length ?m - 1)) \<le> int ?m" using b(1) of_nat_le_iff by blast
    then have "int (2 ^ (bit_length ?m - 1)) \<le> ?c - 1" by (simp only: mc)
    then have "2 ^ (bit_length ?m - 1) \<le> ?c - 1" by (simp only: of_nat_power of_nat_numeral)
    then have "(of_int (2 ^ (bit_length ?m - 1)) :: rat) \<le> of_int (?c - 1)"
      using of_int_le_iff by blast
    then show ?thesis by (simp only: of_int_power of_int_numeral)
  qed
  have D: "(of_int (?c - 1) :: rat) < 1 / x" by linarith
  from C D have "2 ^ (bit_length ?m - 1) < 1 / x" by (rule order_le_less_trans)
  then have "2 ^ (bit_length ?m - 1) * x < 1" using assms by (simp add: field_simps)
  then have "x < 1 / 2 ^ (bit_length ?m - 1)" by (simp add: field_simps)
  moreover have "floor_log2 x + 1 = - int (bit_length ?m - 1)" using e bp by simp
  ultimately have hi: "x < 2 powi (floor_log2 x + 1)"
    by (simp add: power_int_minus field_simps)
  from lo hi show ?thesis by simp
qed


lemma round_half_even_nearest: "\<bar>of_int (round_half_even y) - y\<bar> \<le> \<bar>of_int k - y\<bar>"
proof (cases "k = round_half_even y")
  case True
  then show ?thesis by simp
next
  case False
  then have "1 \<le> \<bar>k - round_half_even y\<bar>" by linarith
  then have "(1::rat) \<le> of_int \<bar>k - round_half_even y\<bar>" using of_int_le_iff [of 1] by fastforce
  then have "(1::rat) \<le> \<bar>of_int k - of_int (round_half_even y)\<bar>" by simp
  moreover have "\<bar>of_int (round_half_even y) - y\<bar> \<le> 1 / 2" by (rule round_half_even_error)
  ultimately show ?thesis by linarith
qed

lemma round_half_even_range:
  assumes "of_int a \<le> y" and "y < of_int b"
  shows "a \<le> round_half_even y \<and> round_half_even y \<le> b"
proof -
  have "a \<le> \<lfloor>y\<rfloor>" using assms(1) by (simp add: le_floor_iff)
  moreover have "\<lfloor>y\<rfloor> < b" using assms(2) by (simp add: floor_less_iff)
  ultimately show ?thesis by (auto simp: round_half_even_def Let_def)
qed

lemma to_double_significand:
  assumes "0 < x"
  shows "\<exists>m. to_double x = of_int m * 2 powi (floor_log2 x - 52) \<and> 2 ^ 52 \<le> m \<and> m \<le> 2 ^ 53"
proof -
  let ?e = "floor_log2 x"
  let ?ulp = "(2::rat) powi (?e - 52)"
  let ?m = "round_half_even (x / ?ulp)"
  have ulp: "0 < ?ulp" by simp
  have b: "2 powi ?e \<le> x" "x < 2 powi (?e + 1)" using floor_log2_bounds [OF assms] by simp_all
  have "2 powi ?e / ?ulp = (2::rat) powi 52"
    by (simp add: power_int_diff)
  then have lo: "of_int (2 ^ 52) \<le> x / ?ulp"
    using b(1) ulp by (metis divide_right_mono less_imp_le of_int_numeral of_int_power power_int_numeral)
  have "2 powi (?e + 1) / ?ulp = (2::rat) powi 53"
    by (simp add: power_int_diff power_int_add)
  then have hi: "x / ?ulp < of_int (2 ^ 53)"
    using b(2) ulp by (metis divide_strict_right_mono of_int_numeral of_int_power power_int_numeral)
  have "2 ^ 52 \<le> ?m \<and> ?m \<le> 2 ^ 53" using lo hi by (rule round_half_even_range)
  moreover have "to_double x = of_int ?m * ?ulp" using assms by (simp add: to_double_def Let_def)
  ultimately show ?thesis by blast
qed

lemma to_double_nearest:
  assumes "0 < x"
  shows "\<bar>to_double x - x\<bar> \<le> \<bar>of_int k * 2 powi (floor_log2 x - 52) - x\<bar>"
proof -
  let ?ulp = "(2::rat) powi (floor_log2 x - 52)"
  have ulp: "0 < ?ulp" by simp
  have "\<bar>of_int (round_half_even (x / ?ulp)) - x / ?ulp\<bar> \<le> \<bar>of_int k - x / ?ulp\<bar>"
    by (rule round_half_even_nearest)
  then have "\<bar>of_int (round_half_even (x / ?ulp)) - x / ?ulp\<bar> * ?ulp
               \<le> \<bar>of_int k - x / ?ulp\<bar> * ?ulp"
    using ulp by (simp add: mult_right_mono)
  moreover have "\<bar>of_int j - x / ?ulp\<bar> * ?ulp = \<bar>of_int j * ?ulp - x\<bar>" for j
  proof -
    have "\<bar>of_int j - x / ?ulp\<bar> * ?ulp = \<bar>(of_int j - x / ?ulp) * ?ulp\<bar>"
      using ulp by (simp add: abs_mult)
    also have "(of_int j - x / ?ulp) * ?ulp = of_int j * ?ulp - x"
      using ulp by (simp add: field_simps)
    finally show ?thesis .
  qed
  ultimately have "\<bar>of_int (round_half_even (x / ?ulp)) * ?ulp - x\<bar> \<le> \<bar>of_int k * ?ulp - x\<bar>"
    by simp
  then show ?thesis using assms by (simp add: to_double_def Let_def)
qed

section \<open>Properties of the report\<close>

lemma total_len_sum: "total_len d = (\<Sum>(k, items)\<leftarrow>d. length items)"
  by (induction d) (auto simp: total_len_def)

lemma generate_report_zero:
  "total_len (celebration_items s) = 0 \<Longrightarrow>
   generate_report now s =
     Inr \<lparr>total_celebration_items = 0,
          total_owned = total_len (owned_items s),
          total_missing = total_len (missing_items s),
          completion_percentage = PyInt 0,
          owned_by_category = owned_items s,
          missing_by_category = missing_items s,
          timestamp = now\<rparr>"
  by (simp add: generate_report_def Let_def)

lemma generate_report_positive:
  "0 < total_len (celebration_items s) \<Longrightarrow>
   generate_report now s =
     Inr \<lparr>total_celebration_items = total_len (celebration_items s),
          total_owned = total_len (owned_items s),
          total_missing = total_len (missing_items s),
          completion_percentage =
            PyFloat (float_round
              (float_mul (to_double (of_nat (total_len (owned_items s))
                                     / of_nat (total_len (celebration_items s)))) 100) 2),
          owned_by_category = owned_items s,
          missing_by_category = missing_items s,
          timestamp = now\<rparr>"
  by (simp add: generate_report_def Let_def int_truediv_def)

lemma report_example_totals:
  "total_len (celebration_items report_example) = 160"
  "total_len (owned_items report_example) = 23"
  "total_len (missing_items report_example) = 137"
  by (simp_all add: report_example_def total_len_def)

lemma percentage_23_of_160:
  "float_round (float_mul (to_double (23 / 160)) 100) 2 = to_double (1437 / 100)"
  by code_simp

lemma percentage_2300_by_160:
  "float_round (to_double (2300 / 160)) 2 = to_double (1438 / 100)"
  by code_simp

lemma doubles_differ: "to_double (1437 / 100) \<noteq> to_double (1438 / 100)"
  by code_simp

lemma quotient_2300_by_160_exact: "to_double (2300 / 160) = 14375 / 1000"
  by code_simp

lemma quotient_23_by_160_times_100_below: "float_mul (to_double (23 / 160)) 100 < 14375 / 1000"
  by code_simp

text \<open>
  Claim C8, as stated, fails for 23 owned items of 160: \<^verbatim>\<open>generate_report\<close> divides
  first and multiplies the rounded quotient by 100, which gives a float just below
  14.375, and the percentage is the float nearest to 14.37; the formula of the claim
  multiplies first, \<open>2300 / 160\<close> is 14.375 exactly, and its rounding to two digits is
  the float nearest to 14.38.
\<close>

theorem completion_percentage_counterexample:
  "total_len (celebration_items report_example) = 160 \<and>
   total_len (owned_items report_example) = 23 \<and>
   map_sum id completion_percentage (generate_report ''2026-01-01 00:00:00'' report_example)
     = Inr (PyFloat (to_double (1437 / 100))) \<and>
   spec_completion 23 160 = PyFloat (to_double (1438 / 100)) \<and>
   to_double (1437 / 100) \<noteq> to_double (1438 / 100)"
proof -
  have pos: "0 < total_len (celebration_items report_example)"
    by (simp add: report_example_totals)
  have "map_sum id completion_percentage (generate_report ''2026-01-01 00:00:00'' report_example)
          = Inr (PyFloat (float_round (float_mul (to_double (23 / 160)) 100) 2))"
    unfolding generate_report_positive [OF pos] by (simp add: report_example_totals)
  then have c: "map_sum id completion_percentage
                  (generate_report ''2026-01-01 00:00:00'' report_example)
                  = Inr (PyFloat (to_double (1437 / 100)))"
    by (simp only: percentage_23_of_160)
  have "spec_completion 23 160 = PyFloat (float_round (to_double (2300 / 160)) 2)"
    by (simp add: spec_completion_def)
  then have sp: "spec_completion 23 160 = PyFloat (to_double (1438 / 100))"
    by (simp only: percentage_2300_by_160)
  from c sp doubles_differ report_example_totals show ?thesis by simp
qed

text \<open>
  Claim C8, amended. \<^verbatim>\<open>generate_report\<close> returns a report, with no division fault:
  the three totals are the sums of the list lengths over all categories of the catalog,
  of the owned items and of the missing items; the completion percentage is the integer
  0 when the catalog total is 0, and otherwise \<^verbatim>\<open>round(x, 2)\<close> of the float
  \<open>x = (total_owned / total_celebration) * 100\<close>, the quotient being rounded to a float
  before it is multiplied.
\<close>

theorem generate_report_summary:
  "\<exists>r. generate_report now s = Inr r \<and>
       total_celebration_items r = (\<Sum>(category, items)\<leftarrow>celebration_items s. length items) \<and>
       total_owned r = (\<Sum>(category, items)\<leftarrow>owned_items s. length items) \<and>
       total_missing r = (\<Sum>(category, items)\<leftarrow>missing_items s. length items) \<and>
       (total_celebration_items r = 0 \<longrightarrow> completion_percentage r = PyInt 0) \<and>
       (0 < total_celebration_items r \<longrightarrow>
          completion_percentage r =
            PyFloat (float_round
              (float_mul (to_double (of_nat (total_owned r) / of_nat (total_celebration_items r)))
                 100) 2))"
proof (cases "total_len (celebration_items s) = 0")
  case True
  show ?thesis
    unfolding generate_report_zero [OF True]
    using True by (simp add: total_len_sum [symmetric])
next
  case False
  then have pos: "0 < total_len (celebration_items s)" by simp
  show ?thesis
    unfolding generate_report_positive [OF pos]
    using pos by (simp add: total_len_sum [symmetric])
qed

theorem generate_report_summary_witness:
  "total_len (celebration_items init_checker) = 0 \<and>
   (\<exists>r. generate_report ''2026-01-01 00:00:00'' init_checker = Inr r \<and>
        total_celebration_items r = 0 \<and> completion_percentage r = PyInt 0) \<and>
   (\<exists>r. generate_report ''2026-01-01 00:00:00'' report_example = Inr r \<and>
        total_celebration_items r = 160 \<and> total_owned r = 23 \<and> total_missing r = 137 \<and>
        completion_percentage r = PyFloat (to_double (1437 / 100)))"
proof -
  have z: "total_len (celebration_items init_checker) = 0"
    by (simp add: init_checker_def total_len_def)
  have a: "\<exists>r. generate_report ''2026-01-01 00:00:00'' init_checker = Inr r \<and>
        total_celebration_items r = 0 \<and> completion_percentage r = PyInt 0"
    using generate_report_summary [of "''2026-01-01 00:00:00''" init_checker] z
    by (auto simp: total_len_sum [symmetric])
  have p: "rat_of_nat 23 / rat_of_nat 160 = 23 / 160" by simp
  have b: "\<exists>r. generate_report ''2026-01-01 00:00:00'' report_example = Inr r \<and>
        total_celebration_items r = 160 \<and> total_owned r = 23 \<and> total_missing r = 137 \<and>
        completion_percentage r = PyFloat (to_double (1437 / 100))"
    using generate_report_summary [of "''2026-01-01 00:00:00''" report_example]
    by (auto simp: total_len_sum [symmetric] report_example_totals p percentage_23_of_160)
  from z a b show ?thesis by blast
qed

end
